theory Spec2Isabelle
  imports Main
begin

section \<open>JavaScript values\<close>

text \<open>
  The state handled by \<^verbatim>\<open>src/lib/state/tree.js\<close> is made of JavaScript values. The
  model keeps \<^verbatim>\<open>undefined\<close>, \<^verbatim>\<open>null\<close>, booleans, numbers and plain objects. A plain
  object is the list of its own enumerable properties in the order \<^verbatim>\<open>Object.keys\<close> lists
  them (insertion order for the non-numeric keys used here). \<open>Num n\<close> is the number
  whose value is the integer \<open>n\<close>.
\<close>

type_synonym key = string

datatype jsval = Undefined | Null | Bool bool | Num int | Obj "(key \<times> jsval) list"

text \<open>
  Not every term of that type is a value a JavaScript program can hold: the own keys of
  an object are pairwise distinct, and a number holds an integer exactly only up to
  \<open>2 ^ 53\<close> in magnitude (\<^verbatim>\<open>9007199254740993\<close> is read as \<^verbatim>\<open>9007199254740992\<close>).
  \<open>jsvalue\<close> says which terms are values.
\<close>

fun jsvalue :: "jsval \<Rightarrow> bool" where
  "jsvalue (Num n) = (- (2 ^ 53) \<le> n \<and> n \<le> 2 ^ 53)"
| "jsvalue (Obj kvs) = (distinct (map fst kvs) \<and> (\<forall>kv \<in> set kvs. jsvalue (snd kv)))"
| "jsvalue v = True"

text \<open>
  The exceptions of the module: \<^verbatim>\<open>throwShapeError()\<close>, \<^verbatim>\<open>throwFinalizedError(key)\<close>
  (both imported from \<^verbatim>\<open>../errors\<close>), \<^verbatim>\<open>throw new Error(msg)\<close> in \<^verbatim>\<open>createLeaf\<close>, and
  the \<^verbatim>\<open>TypeError\<close> the language raises for \<^verbatim>\<open>Object.keys(null)\<close>, for \<^verbatim>\<open>key in 5\<close> and
  for a call of something that is not a function.
\<close>

datatype error = ShapeError | FinalizedError key | Error string | TypeError

text \<open>
  Modelled from the spec: \<^verbatim>\<open>isPlainObject\<close> of \<^verbatim>\<open>../utils\<close> is not among the sources. The
  specification separates a keyed collection from an opaque scalar; only \<open>Obj\<close> is a keyed
  collection.
\<close>

fun isPlainObject :: "jsval \<Rightarrow> bool" where
  "isPlainObject (Obj kvs) = True"
| "isPlainObject v = False"

text \<open>\<^verbatim>\<open>Object.keys(v)\<close>: throws on \<^verbatim>\<open>undefined\<close> and \<^verbatim>\<open>null\<close>, is empty on a primitive.\<close>

fun Object_keys :: "jsval \<Rightarrow> error + key list" where
  "Object_keys Undefined = Inl TypeError"
| "Object_keys Null = Inl TypeError"
| "Object_keys (Bool b) = Inr []"
| "Object_keys (Num n) = Inr []"
| "Object_keys (Obj kvs) = Inr (map fst kvs)"

text \<open>
  The names every object inherits from \<^verbatim>\<open>Object.prototype\<close>. \<^verbatim>\<open>obj[key]\<close> finds the
  inherited member, a built-in function or the prototype itself, when \<open>obj\<close> has no own
  property of that name.
\<close>

definition Object_prototype :: "key list" where
  "Object_prototype =
     [''constructor'', ''hasOwnProperty'', ''isPrototypeOf'', ''propertyIsEnumerable'',
      ''toLocaleString'', ''toString'', ''valueOf'', ''__proto__'', ''__defineGetter__'',
      ''__defineSetter__'', ''__lookupGetter__'', ''__lookupSetter__'']"

text \<open>
  \<^verbatim>\<open>key in v\<close>, for a key that is not one of the inherited names: whether \<open>v\<close> has the own
  property, and a \<^verbatim>\<open>TypeError\<close> unless \<open>v\<close> is an object. The module asks it only for the
  keys of a registry, and \<open>createChildrenObservable\<close> below never lets an inherited name
  into a registry.
\<close>

fun in_op :: "key \<Rightarrow> jsval \<Rightarrow> error + bool" where
  "in_op k (Obj kvs) = Inr (k \<in> set (map fst kvs))"
| "in_op k v = Inl TypeError"

text \<open>
  The own properties \<^verbatim>\<open>Object.keys(v).map(key => [key, v[key]])\<close> of a value that has
  keys.
\<close>

fun properties :: "jsval \<Rightarrow> (key \<times> jsval) list" where
  "properties (Obj kvs) = kvs"
| "properties v = []"

text \<open>\<^verbatim>\<open>v[key]\<close> on an object, for an own key: the property, or \<^verbatim>\<open>undefined\<close>.\<close>

fun get :: "jsval \<Rightarrow> key \<Rightarrow> jsval" where
  "get (Obj kvs) k = (case map_of kvs k of Some v \<Rightarrow> v | None \<Rightarrow> Undefined)"
| "get v k = Undefined"

text \<open>
  \<^verbatim>\<open>Rx.internals.isEqual\<close>, the comparer \<^verbatim>\<open>distinctUntilChanged()\<close> uses when it is given
  none: deep equality. Two primitives are equal when they are the same value; two
  objects are equal when they have the same number of own keys and every own key of the
  first is an own key of the second with an equal value, whatever the order of the
  keys.
\<close>

function isEqual :: "jsval \<Rightarrow> jsval \<Rightarrow> bool"
and equalObjects :: "(key \<times> jsval) list \<Rightarrow> (key \<times> jsval) list \<Rightarrow> bool"
where
  "isEqual Undefined other = (other = Undefined)"
| "isEqual Null other = (other = Null)"
| "isEqual (Bool b) other = (other = Bool b)"
| "isEqual (Num n) other = (other = Num n)"
| "isEqual (Obj kvs) Undefined = False"
| "isEqual (Obj kvs) Null = False"
| "isEqual (Obj kvs) (Bool b) = False"
| "isEqual (Obj kvs) (Num n) = False"
| "isEqual (Obj kvs) (Obj kvs') = (length kvs = length kvs' \<and> equalObjects kvs kvs')"
| "equalObjects [] other = True"
| "equalObjects ((key, val) # kvs) other =
     (case map_of other key of
        None \<Rightarrow> False
      | Some val' \<Rightarrow> isEqual val val' \<and> equalObjects kvs other)"
  by pat_completeness auto
termination
proof (relation "inv_image (less_than <*lex*> less_than)
    (case_sum (\<lambda>(v, w). (size v, 1::nat))
       (\<lambda>(kvs, other). (size_list (size_prod (\<lambda>_. 0) size) kvs, 0)))", goal_cases)
  case 1
  show ?case by (intro wf_inv_image wf_lex_prod wf_less_than)
qed simp_all

section \<open>Nodes and the subjects behind them\<close>

text \<open>
  Every call of \<^verbatim>\<open>createInitialTree\<close> or \<^verbatim>\<open>createLeaf\<close> creates a fresh group of Rx
  subjects. The model keeps these groups in a store, one cell per group, addressed by a
  number in the order of creation. The fields of a cell are the Rx objects of the source
  with the state Rx keeps for them:
  \<^item> \<open>subject\<close>: the current value of \<^verbatim>\<open>new Rx.BehaviorSubject(initialState)\<close> of a leaf;
  \<^item> \<open>getChildrenSubject\<close>: the current value of \<^verbatim>\<open>new Rx.BehaviorSubject({})\<close>, the
    children registry;
  \<^item> \<open>childrenObservable\<close>: the buffer of \<^verbatim>\<open>shareReplay(1)\<close>, that is the last registry
    the stream has emitted, \<open>None\<close> while it has emitted nothing;
  \<^item> \<open>stopped\<close>: whether \<^verbatim>\<open>childrenObservable\<close> has ended with an error. An exception of
    its selector is pushed as \<^verbatim>\<open>onError\<close> into \<^verbatim>\<open>shareReplay(1)\<close> and
    \<^verbatim>\<open>getChildrenSubject\<close>, and Rx disposes the subscription to \<^verbatim>\<open>addChildrenSubject\<close>;
  \<^item> \<open>disposed\<close>: whether Rx has disposed the subscription of the subscriber
    \<^verbatim>\<open>createTreeSetNextState\<close> attaches to \<^verbatim>\<open>newStateSubject\<close>, which it does when the
    callback of that subscriber throws;
  \<^item> \<open>connected\<close>: whether \<^verbatim>\<open>pausable(pauser)\<close> currently holds its connection to
    \<^verbatim>\<open>createTreeObservable(childrenObservable)\<close>;
  \<^item> \<open>published\<close>: the values the node's \<^verbatim>\<open>observable\<close> has emitted so far, oldest first
    (for a branch the values pushed into \<^verbatim>\<open>valueSubject\<close>, for a leaf the output of
    \<^verbatim>\<open>subject.distinctUntilChanged()\<close> as a subscriber attached at creation receives it,
    starting with the initial state);
  \<^item> \<open>observers\<close>: one entry per subscriber of the node's \<^verbatim>\<open>observable\<close>, holding the
    values that subscriber has received, oldest first.

  The field \<open>combined\<close> is not an Rx object but a record of the past, kept to state what
  was true when a value was published: it has one entry per published value, which says
  whether, at the moment the value was pushed, the node was a leaf or the value was an
  object with entries only for non-provisional children of the node that had a latest
  value (\<open>combinedValue\<close> below). Nothing reads it.
\<close>

text \<open>
  The module reads from a node the fields \<^verbatim>\<open>provisional\<close>, \<^verbatim>\<open>setNextState\<close>,
  \<^verbatim>\<open>combinedObservable\<close>, \<^verbatim>\<open>addChildrenSubject\<close>, \<^verbatim>\<open>getChildrenSubject\<close>, \<^verbatim>\<open>pauser\<close> and
  \<^verbatim>\<open>nodeSubject\<close>. A node is its provisional flag together with the subjects it wraps:
  \<open>addr\<close> is the address of their cell.
\<close>

record node =
  addr :: nat
  provisional :: bool

text \<open>
  Modelled from the spec: \<^verbatim>\<open>createNode\<close> is a parameter of every function of the module
  and its code is not among the sources. Following the specification, the node it
  returns carries the provisional flag it was given and wraps the subjects it was given;
  called with a provisional node and no subjects, as \<^verbatim>\<open>createFinalTreeFromProvisionalNode\<close>
  does, it wraps the subjects of that provisional node. \<^verbatim>\<open>combinedObservable\<close> of a node
  is the value stream of the subjects it wraps, \<^verbatim>\<open>setNextState\<close> their setter, and
  \<^verbatim>\<open>nodeSubject.getValue()\<close> the node itself.
\<close>

definition createNode :: "nat \<Rightarrow> bool \<Rightarrow> node" where
  "createNode a prov = \<lparr>addr = a, provisional = prov\<rparr>"

record cell =
  isLeaf :: bool
  subject :: jsval
  getChildrenSubject :: "(key \<times> node) list"
  childrenObservable :: "(key \<times> node) list option"
  stopped :: bool
  disposed :: bool
  connected :: bool
  published :: "jsval list"
  combined :: "bool list"
  observers :: "jsval list list"

text \<open>
  The whole tree shares one \<^verbatim>\<open>pauser\<close>, a \<^verbatim>\<open>BehaviorSubject\<close> of booleans: \<open>pauser\<close> is
  its current value and \<open>pausables\<close> lists, in the order of subscription, the branches
  whose \<^verbatim>\<open>pausable(pauser)\<close> listens to it.
\<close>

record state =
  cells :: "nat \<Rightarrow> cell"
  fresh :: nat
  pauser :: bool
  pausables :: "nat list"

definition update_cell :: "nat \<Rightarrow> (cell \<Rightarrow> cell) \<Rightarrow> state \<Rightarrow> state" where
  "update_cell a f s = s\<lparr>cells := (cells s)(a := f (cells s a))\<rparr>"

definition alloc :: "cell \<Rightarrow> state \<Rightarrow> nat \<times> state" where
  "alloc c s = (fresh s, s\<lparr>cells := (cells s)(fresh s := c), fresh := Suc (fresh s)\<rparr>)"

text \<open>
  The subjects \<^verbatim>\<open>createInitialTree\<close> creates: an empty registry, a registry stream and a
  value stream that have emitted nothing, no subscriber.
\<close>

definition blank :: cell where
  "blank = \<lparr>isLeaf = False, subject = Undefined, getChildrenSubject = [],
            childrenObservable = None, stopped = False, disposed = False,
            connected = False, published = [], combined = [], observers = []\<rparr>"

section \<open>The Rx operators\<close>

text \<open>
  The module is written against RxJS 4 (\<^verbatim>\<open>import Rx from 'rx'\<close>). Delivery is
  synchronous: a value pushed into a subject has reached every subscriber, and
  everything those subscribers do with it has happened, when \<^verbatim>\<open>onNext\<close> returns. An
  exception thrown by a subscriber travels up through the \<^verbatim>\<open>onNext\<close> calls to the caller.
\<close>

text \<open>
  The value a new subscriber of a node's stream receives at once: the current value of
  a leaf's \<^verbatim>\<open>BehaviorSubject\<close>, the buffered value of a branch's \<^verbatim>\<open>ReplaySubject(1)\<close>.
\<close>

definition latest :: "state \<Rightarrow> nat \<Rightarrow> jsval option" where
  "latest s a =
     (let c = cells s a in
      if isLeaf c then Some (subject c)
      else if published c = [] then None else Some (last (published c)))"

text \<open>
  \<^verbatim>\<open>Rx.Observable.combineLatest(...sources, selector)\<close> over sources that replay their
  latest value: it emits once every source has a value, and nothing with no source. The
  selector of both stages builds the object \<^verbatim>\<open>acc[keys[i]] = val\<close>.
\<close>

definition combineLatest :: "(key \<times> 'a option) list \<Rightarrow> (key \<times> 'a) list option" where
  "combineLatest sources =
     (if sources = [] \<or> (\<exists>kv \<in> set sources. snd kv = None) then None
      else Some (map (\<lambda>kv. (fst kv, the (snd kv))) sources))"

text \<open>
  \<^verbatim>\<open>createTreeObservable\<close>: what the two \<^verbatim>\<open>flatMapLatest\<close> stages emit for the registry
  \<open>children\<close>. Stage one combines the \<^verbatim>\<open>nodeSubject\<close>s, which always hold a node, and
  keeps the nodes that are not provisional; stage two combines their value streams.
\<close>

definition createTreeObservable :: "state \<Rightarrow> (key \<times> node) list option \<Rightarrow> jsval option" where
  "createTreeObservable s childrenObs =
     (case childrenObs of
        None \<Rightarrow> None
      | Some children \<Rightarrow>
          (case combineLatest (map (\<lambda>kn. (fst kn, Some (snd kn))) children) of
             None \<Rightarrow> None
           | Some latestNodes \<Rightarrow>
               (let nodes = filter (\<lambda>kn. \<not> provisional (snd kn)) latestNodes in
                case combineLatest (map (\<lambda>kn. (fst kn, latest s (addr (snd kn)))) nodes) of
                  None \<Rightarrow> None
                | Some latestValues \<Rightarrow> Some (Obj latestValues))))"

text \<open>
  What the specification promises of a value \<open>v\<close> published by the branch at \<open>a\<close>, read in
  the state \<open>s\<close> in which it is pushed: \<open>v\<close> is an object, and each of its entries belongs
  to a child that the last registry of the branch holds under that key, that is not
  provisional, and whose stream has a latest value.
\<close>

definition combinedValue :: "state \<Rightarrow> nat \<Rightarrow> jsval \<Rightarrow> bool" where
  "combinedValue s a v =
     (case v of
        Obj latestValues \<Rightarrow>
          (case childrenObservable (cells s a) of
             None \<Rightarrow> False
           | Some children \<Rightarrow>
               list_all (\<lambda>kv. list_ex (\<lambda>kn. fst kn = fst kv \<and> \<not> provisional (snd kn) \<and>
                            latest s (addr (snd kn)) \<noteq> None) children) latestValues)
      | _ \<Rightarrow> False)"

text \<open>
  A value reaches the node's stream: it is recorded and handed to every subscriber.
  The entry added to \<open>combined\<close> is computed in the state the value is pushed in.
\<close>

definition deliver :: "nat \<Rightarrow> jsval \<Rightarrow> state \<Rightarrow> state" where
  "deliver a v s =
     update_cell a (\<lambda>c. c\<lparr>published := published c @ [v],
                          combined := combined c @ [isLeaf c \<or> combinedValue s a v],
                          observers := map (\<lambda>l. l @ [v]) (observers c)\<rparr>) s"

text \<open>
  The branch that currently combines the stream of the node at \<open>a\<close>: a branch whose
  pausable is connected and whose last registry holds that node as a non-provisional
  child. A branch creates its subjects before those of its children, so it is among
  the cells older than \<open>a\<close>.
\<close>

definition combines :: "state \<Rightarrow> nat \<Rightarrow> nat \<Rightarrow> bool" where
  "combines s a p =
     (\<not> isLeaf (cells s p) \<and> connected (cells s p) \<and>
      (case childrenObservable (cells s p) of
         None \<Rightarrow> False
       | Some children \<Rightarrow> \<exists>kn \<in> set children. addr (snd kn) = a \<and> \<not> provisional (snd kn)))"

definition combiner :: "state \<Rightarrow> nat \<Rightarrow> nat option" where
  "combiner s a = find (combines s a) [0..<a]"

text \<open>
  \<^verbatim>\<open>onNext\<close> on the node's stream: the value is delivered, and the parent that combines
  this stream emits its recomputed combined value, and so on up the tree.
\<close>

function publish :: "nat \<Rightarrow> jsval \<Rightarrow> state \<Rightarrow> state" where
  "publish a v s =
     (let s1 = deliver a v s in
      case combiner s1 a of
        None \<Rightarrow> s1
      | Some p \<Rightarrow>
          (case createTreeObservable s1 (childrenObservable (cells s1 p)) of
             None \<Rightarrow> s1
           | Some w \<Rightarrow> publish p w s1))"
  by pat_completeness auto
termination
proof (relation "measure (\<lambda>(a, v, s). a)")
  show "wf (measure (\<lambda>(a, v, s). a))" by simp
next
  fix a p :: nat and v w :: jsval and s s1 :: state
  assume "combiner s1 a = Some p"
  then have "p \<in> set [0..<a]"
    unfolding combiner_def by (auto simp: find_Some_iff)
  then show "((p, w, s1), (a, v, s)) \<in> measure (\<lambda>(a, v, s). a)" by simp
qed

declare publish.simps [simp del]

text \<open>
  \<^verbatim>\<open>pausable(pauser)\<close> connects its source while the pauser says \<^verbatim>\<open>true\<close> and drops the
  connection while it says \<^verbatim>\<open>false\<close>; values emitted while the connection is down are
  not kept. Connecting subscribes \<^verbatim>\<open>createTreeObservable(childrenObservable)\<close> anew:
  \<^verbatim>\<open>shareReplay(1)\<close> replays the last registry and the combined value, if there is one, is
  pushed into \<^verbatim>\<open>valueSubject\<close>.
\<close>

definition connect :: "nat \<Rightarrow> state \<Rightarrow> state" where
  "connect a s =
     (let s1 = update_cell a (\<lambda>c. c\<lparr>connected := True\<rparr>) s in
      case createTreeObservable s1 (childrenObservable (cells s1 a)) of
        None \<Rightarrow> s1
      | Some v \<Rightarrow> publish a v s1)"

definition disconnect :: "nat \<Rightarrow> state \<Rightarrow> state" where
  "disconnect a s = update_cell a (\<lambda>c. c\<lparr>connected := False\<rparr>) s"

text \<open>
  \<^verbatim>\<open>pauser.onNext(b)\<close>: the pausables hear the value in the order they subscribed; each
  acts only when the value differs from the last one it heard.
\<close>

fun notify :: "nat list \<Rightarrow> bool \<Rightarrow> state \<Rightarrow> state" where
  "notify [] b s = s"
| "notify (a # as) b s =
     notify as b (if connected (cells s a) = b then s
                  else if b then connect a s else disconnect a s)"

definition pauser_onNext :: "bool \<Rightarrow> state \<Rightarrow> state" where
  "pauser_onNext b s = notify (pausables s) b (s\<lparr>pauser := b\<rparr>)"

text \<open>
  \<^verbatim>\<open>valueObservable.subscribe(valueSubject)\<close> in \<^verbatim>\<open>createInitialTree\<close>: the pausable
  starts to listen to the pauser and connects at once when the pauser says \<^verbatim>\<open>true\<close>.
\<close>

definition subscribe_valueSubject :: "nat \<Rightarrow> state \<Rightarrow> state" where
  "subscribe_valueSubject a s =
     (let s1 = s\<lparr>pausables := pausables s @ [a]\<rparr> in
      if pauser s1 then connect a s1 else s1)"

text \<open>
  \<^verbatim>\<open>childrenObservable\<close> emits a registry: \<^verbatim>\<open>childrenObservable.subscribe(getChildrenSubject)\<close>
  stores it, \<^verbatim>\<open>shareReplay(1)\<close> buffers it, and a connected pausable recomputes the
  combined value.
\<close>

definition childrenObservable_onNext :: "nat \<Rightarrow> (key \<times> node) list \<Rightarrow> state \<Rightarrow> state" where
  "childrenObservable_onNext a children s =
     (let s1 = update_cell a (\<lambda>c. c\<lparr>getChildrenSubject := children,
                                     childrenObservable := Some children\<rparr>) s in
      if connected (cells s1 a)
      then (case createTreeObservable s1 (Some children) of
              None \<Rightarrow> s1
            | Some v \<Rightarrow> publish a v s1)
      else s1)"

text \<open>
  \<^verbatim>\<open>childrenObservable\<close> ends with an error: the selector of
  \<^verbatim>\<open>addChildrenSubject.withLatestFrom(getChildrenSubject, ...)\<close> has thrown. The registry
  stream emits nothing for that event, keeps the last registry in its buffer and is
  stopped; \<^verbatim>\<open>childrenObservable.subscribeOnError(err => { throw err })\<close> then rethrows
  the exception to the caller of \<^verbatim>\<open>addChildrenSubject.onNext\<close>.
\<close>

definition childrenObservable_onError :: "nat \<Rightarrow> state \<Rightarrow> state" where
  "childrenObservable_onError a s = update_cell a (\<lambda>c. c\<lparr>stopped := True\<rparr>) s"

text \<open>\<^verbatim>\<open>Object.assign({}, acc, { [key]: v })\<close>.\<close>

fun Object_assign :: "(key \<times> 'a) list \<Rightarrow> key \<Rightarrow> 'a \<Rightarrow> (key \<times> 'a) list" where
  "Object_assign [] k v = [(k, v)]"
| "Object_assign (kv # acc) k v =
     (if fst kv = k then (k, v) # acc else kv # Object_assign acc k v)"

text \<open>
  Modelled from the spec: what \<^verbatim>\<open>createNode\<close> does with the \<^verbatim>\<open>provisionalNode\<close> it is
  given together with a stream of its own, as \<^verbatim>\<open>createLeaf\<close> and \<^verbatim>\<open>createInitialTree\<close>
  call it. Following the specification (a subscriber attached to a provisional node
  keeps receiving updates once the node has got its value) and the test
  \<^verbatim>\<open>'should be able to hook into leaf node observable prior to initial state'\<close>, every
  subscriber of the provisional node becomes a subscriber of the stream at \<open>a\<close>: it keeps
  what it has received and is handed the latest value of that stream, if there is one.
  Its entry in the cell of the provisional node is copied, not moved: the subjects of the
  provisional node are still there, and whoever has subscribed to them directly still
  hears them.
\<close>

definition takeOver :: "node option \<Rightarrow> nat \<Rightarrow> state \<Rightarrow> state" where
  "takeOver provisionalNode a s =
     (case provisionalNode of
        None \<Rightarrow> s
      | Some pn \<Rightarrow>
          update_cell a (\<lambda>c. c\<lparr>observers := observers c @
            map (\<lambda>l. l @ (case latest s a of None \<Rightarrow> [] | Some v \<Rightarrow> [v]))
              (observers (cells s (addr pn)))\<rparr>) s)"

section \<open>Building the tree\<close>

text \<open>
  The functions below return \<open>Inr\<close> with their result and the new state, or \<open>Inl\<close> with
  the exception thrown and the state at the moment of the throw. \<^verbatim>\<open>pauser\<close>,
  \<^verbatim>\<open>hookMap\<close> and \<^verbatim>\<open>createNode\<close> are the same for the whole tree and are not passed
  around. An address stands for the \<^verbatim>\<open>addChildrenSubject\<close> of its cell.
\<close>

text \<open>
  The subjects \<^verbatim>\<open>createLeaf\<close> creates: \<^verbatim>\<open>new Rx.BehaviorSubject(initialState)\<close>, whose
  stream \<^verbatim>\<open>subject.distinctUntilChanged()\<close> starts with the initial state.
\<close>

definition leafCell :: "jsval \<Rightarrow> cell" where
  "leafCell initialState =
     \<lparr>isLeaf = True, subject = initialState, getChildrenSubject = [],
      childrenObservable = None, stopped = False, disposed = False, connected = False,
      published = [initialState], combined = [True], observers = []\<rparr>"

definition createLeaf :: "jsval \<Rightarrow> node option \<Rightarrow> state \<Rightarrow> (error \<times> state) + (node \<times> state)" where
  "createLeaf initialState provisionalNode s =
     (if (case provisionalNode of
            None \<Rightarrow> False
          | Some pn \<Rightarrow> getChildrenSubject (cells s (addr pn)) \<noteq> [])
      then Inl (Error ''Tried to create leaf node when provisional has children'', s)
      else
        (let (a, s1) = alloc (leafCell initialState) s
         in Inr (createNode a False, takeOver provisionalNode a s1)))"

text \<open>
  \<^verbatim>\<open>createTree\<close>, \<^verbatim>\<open>createInitialTree\<close>, \<^verbatim>\<open>createFinalTreeFromProvisionalNode\<close> and
  \<^verbatim>\<open>updateAddChildrenSubject\<close> as in the source. \<open>forEach_onNext\<close> is the loop
  \<^verbatim>\<open>keys.forEach(key => addChildrenSubject.onNext({ key, value: initialState[key],
  provisional: false }))\<close>, run over the properties of the initial state.

  \<open>createChildrenObservable\<close> is the selector \<^verbatim>\<open>(child, acc) => ...\<close> of that function,
  applied to an event and to the registry \<^verbatim>\<open>withLatestFrom(getChildrenSubject, ...)\<close>
  reads at that moment. \<^verbatim>\<open>acc[key]\<close> is the child the registry holds under \<open>key\<close>; when
  it holds none and \<open>key\<close> is a name inherited from \<^verbatim>\<open>Object.prototype\<close>, \<^verbatim>\<open>acc[key]\<close> is
  the inherited member, which is truthy and has no \<^verbatim>\<open>getValue\<close>, so that
  \<^verbatim>\<open>acc[key].getValue()\<close> raises a \<^verbatim>\<open>TypeError\<close>.

  \<open>addChildrenSubject_onNext\<close> is one event going through the stream. A stream that
  has stopped has no subscription to \<^verbatim>\<open>addChildrenSubject\<close> left and the event is lost.
  Otherwise a result of the selector is emitted, and an exception of the selector stops
  the stream and reaches the caller.
\<close>

lemma size_properties:
  "size_list (size_prod (\<lambda>_. 0) size) (properties v) < size v \<or>
   size_list (size_prod (\<lambda>_. 0) size) (properties v) = size v"
  by (cases v) simp_all

function createTree :: "jsval \<Rightarrow> bool \<Rightarrow> node option \<Rightarrow> state \<Rightarrow> (error \<times> state) + (node \<times> state)"
and createInitialTree :: "jsval \<Rightarrow> bool \<Rightarrow> node option \<Rightarrow> state \<Rightarrow> (error \<times> state) + (node \<times> state)"
and createFinalTreeFromProvisionalNode :: "jsval \<Rightarrow> node \<Rightarrow> state \<Rightarrow> (error \<times> state) + (node \<times> state)"
and updateAddChildrenSubject :: "jsval \<Rightarrow> nat \<Rightarrow> state \<Rightarrow> (error \<times> state) + state"
and forEach_onNext :: "(key \<times> jsval) list \<Rightarrow> nat \<Rightarrow> state \<Rightarrow> (error \<times> state) + state"
and addChildrenSubject_onNext :: "nat \<Rightarrow> key \<Rightarrow> jsval \<Rightarrow> bool \<Rightarrow> state \<Rightarrow> (error \<times> state) + state"
and createChildrenObservable :: "nat \<Rightarrow> key \<Rightarrow> jsval \<Rightarrow> bool \<Rightarrow> state \<Rightarrow> (error \<times> state) + ((key \<times> node) list \<times> state)"
where
  "createTree initialState prov provisionalNode s =
     (if initialState = Undefined then createInitialTree Null True None s
      else if \<not> prov \<and> \<not> isPlainObject initialState
        then createLeaf initialState provisionalNode s
      else if \<not> prov \<and> provisionalNode \<noteq> None
        then createFinalTreeFromProvisionalNode initialState (the provisionalNode) s
      else createInitialTree initialState prov provisionalNode s)"
| "createInitialTree initialState prov provisionalNode s =
     (let (a, s1) = alloc blank s
      in case (if \<not> prov then updateAddChildrenSubject initialState a s1 else Inr s1) of
           Inl e \<Rightarrow> Inl e
         | Inr s2 \<Rightarrow>
             Inr (createNode a prov, takeOver provisionalNode a (subscribe_valueSubject a s2)))"
| "createFinalTreeFromProvisionalNode initialState provisionalNode s =
     (case updateAddChildrenSubject initialState (addr provisionalNode) s of
        Inl e \<Rightarrow> Inl e
      | Inr s1 \<Rightarrow> Inr (createNode (addr provisionalNode) False, s1))"
| "updateAddChildrenSubject initialState a s =
     (case Object_keys initialState of
        Inl e \<Rightarrow> Inl (e, s)
      | Inr keys \<Rightarrow>
          (case forEach_onNext (properties initialState) a (pauser_onNext False s) of
             Inl e \<Rightarrow> Inl e
           | Inr s1 \<Rightarrow> Inr (pauser_onNext True s1)))"
| "forEach_onNext [] a s = Inr s"
| "forEach_onNext ((key, val) # kvs) a s =
     (case addChildrenSubject_onNext a key val False s of
        Inl e \<Rightarrow> Inl e
      | Inr s1 \<Rightarrow> forEach_onNext kvs a s1)"
| "addChildrenSubject_onNext a key val prov s =
     (if stopped (cells s a) then Inr s
      else case createChildrenObservable a key val prov s of
             Inl (e, s1) \<Rightarrow> Inl (e, childrenObservable_onError a s1)
           | Inr (children, s1) \<Rightarrow> Inr (childrenObservable_onNext a children s1))"
| "createChildrenObservable a key val prov s =
     (let acc = getChildrenSubject (cells s a);
          oldNode = map_of acc key
      in if oldNode = None \<and> key \<in> set Object_prototype then Inl (TypeError, s)
         else if oldNode = None \<or> provisional (the oldNode)
         then (case createTree val prov oldNode s of
                 Inl e \<Rightarrow> Inl e
               | Inr (newNode, s1) \<Rightarrow> Inr (Object_assign acc key newNode, s1))
         else Inl (FinalizedError key, s))"
  by pat_completeness auto
termination
proof (relation "inv_image (less_than <*lex*> less_than)
    (case_sum
      (case_sum (\<lambda>(v, p, pn, s). (size v, 4::nat))
        (case_sum (\<lambda>(v, p, pn, s). (size v, 3)) (\<lambda>(v, pn, s). (size v, 3))))
      (case_sum
        (case_sum (\<lambda>(v, a, s). (size v, 2))
          (\<lambda>(kvs, a, s). (size_list (size_prod (\<lambda>_. 0) size) kvs, 1)))
        (case_sum (\<lambda>(a, k, v, p, s). (size v, 6)) (\<lambda>(a, k, v, p, s). (size v, 5)))))",
    goal_cases)
  case 1
  show ?case by (intro wf_inv_image wf_lex_prod wf_less_than)
qed (simp_all add: size_properties)

declare createTree.simps [simp del] createInitialTree.simps [simp del]
  createFinalTreeFromProvisionalNode.simps [simp del]
  updateAddChildrenSubject.simps [simp del]
  addChildrenSubject_onNext.simps [simp del] createChildrenObservable.simps [simp del]

section \<open>Assigning state\<close>

text \<open>
  The setter of a leaf is \<^verbatim>\<open>subject.onNext(newState)\<close>; the leaf's stream is
  \<^verbatim>\<open>subject.distinctUntilChanged()\<close>, which passes a value on unless its comparer,
  \<^verbatim>\<open>Rx.internals.isEqual\<close>, holds it equal to the value it passed on last. \<open>emitted\<close> is
  what the stream has passed on so far. The subject itself takes every value: a value
  that is not passed on is still the one a later subscriber is handed first. Two values
  the comparer holds equal differ at most in the order of their keys, and the model gives
  the later of the two to whoever asks for the latest value of the leaf, also to a
  subscription that was attached before it was assigned.
\<close>

definition distinctUntilChanged :: "jsval list \<Rightarrow> jsval \<Rightarrow> bool" where
  "distinctUntilChanged emitted v = (emitted = [] \<or> \<not> isEqual (last emitted) v)"

definition subject_onNext :: "nat \<Rightarrow> jsval \<Rightarrow> state \<Rightarrow> state" where
  "subject_onNext a newState s =
     (let emitted = published (cells s a);
          s1 = update_cell a (\<lambda>c. c\<lparr>subject := newState\<rparr>) s
      in if distinctUntilChanged emitted newState then publish a newState s1 else s1)"

lemma size_map_of:
  "map_of kvs k = Some (v :: jsval) \<Longrightarrow> size v < Suc (size_list (size_prod (\<lambda>_. 0) size) kvs)"
  by (induction kvs) (auto split: if_splits)

lemma size_get:
  assumes "in_op k newState = Inr True"
  shows "size (get newState k) < size newState"
proof (cases newState)
  case (Obj kvs)
  with assms have "k \<in> fst ` set kvs" by simp
  then obtain v where "map_of kvs k = Some v"
    by (cases "map_of kvs k") (auto simp: map_of_eq_None_iff)
  with Obj show ?thesis
    using size_map_of [of kvs k v] by simp
qed (use assms in simp_all)

text \<open>
  \<open>setNextState\<close> is the \<^verbatim>\<open>setNextState\<close> of a node: the setter \<^verbatim>\<open>createLeaf\<close> made for a
  leaf, the one \<^verbatim>\<open>createTreeSetNextState\<close> made for a branch.
  \<^verbatim>\<open>createTreeSetNextState\<close>: \<^verbatim>\<open>newStateSubject.withLatestFrom(childrenObservable)\<close> drops
  the new state while \<^verbatim>\<open>childrenObservable\<close> has emitted nothing, and otherwise hands it
  to the subscriber together with the last registry. When the callback of the
  subscriber throws, Rx disposes the subscription before it lets the exception reach the
  caller, and \<^verbatim>\<open>newStateSubject\<close> has no subscriber afterwards. \<open>forEach_setNextState\<close> is
  the loop \<^verbatim>\<open>keys.forEach(key => ...)\<close> of the subscriber over the keys of that registry.
\<close>

function setNextState :: "nat \<Rightarrow> jsval \<Rightarrow> state \<Rightarrow> (error \<times> state) + state"
and createTreeSetNextState :: "nat \<Rightarrow> jsval \<Rightarrow> state \<Rightarrow> (error \<times> state) + state"
and forEach_setNextState :: "(key \<times> node) list \<Rightarrow> jsval \<Rightarrow> state \<Rightarrow> (error \<times> state) + state"
where
  "setNextState a newState s =
     (if isLeaf (cells s a) then Inr (subject_onNext a newState s)
      else createTreeSetNextState a newState s)"
| "createTreeSetNextState a newState s =
     (if disposed (cells s a) then Inr s
      else case childrenObservable (cells s a) of
        None \<Rightarrow> Inr s
      | Some children \<Rightarrow>
          (case (let keys = map fst children in
                 case Object_keys newState of
                   Inl e \<Rightarrow> Inl (e, s)
                 | Inr newKeys \<Rightarrow>
                     if length newKeys \<noteq> length keys then Inl (ShapeError, s)
                     else forEach_setNextState children newState s) of
             Inl (e, s1) \<Rightarrow> Inl (e, update_cell a (\<lambda>c. c\<lparr>disposed := True\<rparr>) s1)
           | Inr s1 \<Rightarrow> Inr s1))"
| "forEach_setNextState [] newState s = Inr s"
| "forEach_setNextState ((key, child) # children) newState s =
     (case in_op key newState of
        Inl e \<Rightarrow> Inl (e, s)
      | Inr present \<Rightarrow>
          if present
          then (case setNextState (addr child) (get newState key) s of
                  Inl e \<Rightarrow> Inl e
                | Inr s1 \<Rightarrow> forEach_setNextState children newState s1)
          else Inl (ShapeError, s))"
  by pat_completeness auto
termination
proof (relation "inv_image (less_than <*lex*> less_than <*lex*> less_than)
    (case_sum (\<lambda>(a, v, s). (size v, 2::nat, 0::nat))
      (case_sum (\<lambda>(a, v, s). (size v, 1, 0))
        (\<lambda>(children, v, s). (size v, 0, length children))))", goal_cases)
  case 1
  show ?case by (intro wf_inv_image wf_lex_prod wf_less_than)
qed (simp_all add: size_get)

declare setNextState.simps [simp del] createTreeSetNextState.simps [simp del]

section \<open>Subscribers\<close>

text \<open>
  A caller subscribes to the \<^verbatim>\<open>observable\<close> of a node: the \<^verbatim>\<open>BehaviorSubject\<close> of a leaf
  and the \<^verbatim>\<open>ReplaySubject(1)\<close> of a branch hand the new subscriber their latest value
  at once, if they have one.
\<close>

definition subscribe :: "nat \<Rightarrow> state \<Rightarrow> state" where
  "subscribe a s =
     update_cell a (\<lambda>c. c\<lparr>observers := observers c @
        [case latest s a of None \<Rightarrow> [] | Some v \<Rightarrow> [v]]\<rparr>) s"

text \<open>
  The state before the root is created: no subjects, and the pauser the root will
  create, \<^verbatim>\<open>new Rx.BehaviorSubject(true)\<close>.
\<close>

definition start :: state where
  "start = \<lparr>cells = (\<lambda>a. blank), fresh = 0, pauser = True, pausables = []\<rparr>"

section \<open>Reading results\<close>

definition state_of :: "(error \<times> state) + ('a \<times> state) \<Rightarrow> state" where
  "state_of r = (case r of Inl (e, s) \<Rightarrow> s | Inr (n, s) \<Rightarrow> s)"

definition state_after :: "(error \<times> state) + state \<Rightarrow> state" where
  "state_after r = (case r of Inl (e, s) \<Rightarrow> s | Inr s \<Rightarrow> s)"

definition thrown :: "(error \<times> state) + 'a \<Rightarrow> error option" where
  "thrown r = (case r of Inl (e, s) \<Rightarrow> Some e | Inr x \<Rightarrow> None)"

definition node_of :: "(error \<times> state) + (node \<times> state) \<Rightarrow> node option" where
  "node_of r = (case r of Inl (e, s) \<Rightarrow> None | Inr (n, s) \<Rightarrow> Some n)"

section \<open>Concrete trees\<close>

text \<open>A root that is only referenced: \<^verbatim>\<open>createTree({ createNode })\<close>, no initial state.\<close>

definition provisionalRoot :: state where
  "provisionalRoot = state_of (createTree Undefined False None start)"

text \<open>
  The root \<^verbatim>\<open>createTree({ initialState: {}, createNode })\<close>, a finalized branch without
  keys.
\<close>

definition emptyBranch :: state where
  "emptyBranch = state_of (createTree (Obj []) False None start)"

text \<open>The root \<^verbatim>\<open>createTree({ initialState: { a: 1, b: 2 }, createNode })\<close>.\<close>

definition twoLeaves :: state where
  "twoLeaves = state_of (createTree (Obj [(''a'', Num 1), (''b'', Num 2)]) False None start)"

text \<open>\<^verbatim>\<open>setNextState({ a: 5, c: 6 })\<close> on that root.\<close>

definition rejected :: "(error \<times> state) + state" where
  "rejected = setNextState 0 (Obj [(''a'', Num 5), (''c'', Num 6)]) twoLeaves"

text \<open>
  A provisional root with one subscriber, then given the initial state
  \<^verbatim>\<open>{ a: { x: 1 }, b: 2 }\<close>.
\<close>

definition watchedRoot :: state where
  "watchedRoot = subscribe 0 provisionalRoot"

definition finalizedRoot :: "(error \<times> state) + (node \<times> state)" where
  "finalizedRoot =
     createTree (Obj [(''a'', Obj [(''x'', Num 1)]), (''b'', Num 2)]) False
       (Some (createNode 0 True)) watchedRoot"

text \<open>A provisional root under which the path \<^verbatim>\<open>b\<close> has been referenced.\<close>

definition referencedChild :: state where
  "referencedChild = state_after (addChildrenSubject_onNext 0 ''b'' Undefined True provisionalRoot)"

text \<open>\<^verbatim>\<open>setNextState({ a: 5, b: 6 })\<close> on the root \<^verbatim>\<open>{ a: 1, b: 2 }\<close> once it has a subscriber.\<close>

definition reassigned :: state where
  "reassigned =
     state_after (setNextState 0 (Obj [(''a'', Num 5), (''b'', Num 6)]) (subscribe 0 twoLeaves))"

text \<open>The root \<^verbatim>\<open>createTree({ initialState: 1, createNode })\<close>, a leaf.\<close>

definition oneLeaf :: state where
  "oneLeaf = state_of (createTree (Num 1) False None start)"

text \<open>\<^verbatim>\<open>setNextState({ a: { x: 7 }, b: 2 })\<close> on the root finalized above.\<close>

definition finalizedThenAssigned :: state where
  "finalizedThenAssigned =
     state_after (setNextState 0 (Obj [(''a'', Obj [(''x'', Num 7)]), (''b'', Num 2)])
       (state_of finalizedRoot))"

text \<open>The referenced child \<^verbatim>\<open>b\<close> is given the initial state \<^verbatim>\<open>{ c: 3 }\<close>.\<close>

definition promoted :: state where
  "promoted = state_after (addChildrenSubject_onNext 0 ''b'' (Obj [(''c'', Num 3)]) False referencedChild)"

text \<open>
  Under the referenced child \<^verbatim>\<open>b\<close> the path \<^verbatim>\<open>b.c\<close> is referenced in turn: the provisional
  child \<^verbatim>\<open>b\<close> now has a child of its own.
\<close>

definition referencedGrandchild :: state where
  "referencedGrandchild =
     state_after (addChildrenSubject_onNext 1 ''c'' Undefined True referencedChild)"

text \<open>
  The referenced child \<^verbatim>\<open>b\<close>, with one subscriber, once the root has also been given the
  leaf \<^verbatim>\<open>a: 1\<close> and then the empty branch \<^verbatim>\<open>e: {}\<close>, whose stream never emits.
\<close>

definition watchedChild :: state where
  "watchedChild = subscribe 1 referencedChild"

definition withLeaf :: state where
  "withLeaf = state_after (addChildrenSubject_onNext 0 ''a'' (Num 1) False watchedChild)"

definition withEmptyBranch :: state where
  "withEmptyBranch = state_after (addChildrenSubject_onNext 0 ''e'' (Obj []) False withLeaf)"

text \<open>The root \<^verbatim>\<open>{ a: 1, b: 2 }\<close> after the event \<^verbatim>\<open>{ key: 'a', value: 9 }\<close> it refuses.\<close>

definition refused :: state where
  "refused = state_after (addChildrenSubject_onNext 0 ''a'' (Num 9) False twoLeaves)"

text \<open>The leaf \<^verbatim>\<open>1\<close> after \<^verbatim>\<open>setNextState({ x: 1, y: 2 })\<close>.\<close>

definition leafWithObject :: state where
  "leafWithObject =
     state_after (setNextState 0 (Obj [(''x'', Num 1), (''y'', Num 2)]) oneLeaf)"

section \<open>Runs of the module\<close>

text \<open>
  What a caller can do with a tree: assign a state to a node, create a node, send an
  add-child event to a branch, subscribe to a node's stream. A run is a sequence of such
  calls that return normally. A call that throws ends the run: its result carries the
  state the exception left, in which the registry streams and the setters the exception
  went through are stopped. Of a stopped stream the model follows that it ignores what
  is sent to it later; what a subject that has ended with an error answers when it is
  read or subscribed to again is not followed.
\<close>

inductive step :: "state \<Rightarrow> state \<Rightarrow> bool" where
  assign: "setNextState a newState s = Inr s' \<Longrightarrow> step s s'"
| create: "createTree initialState prov provisionalNode s = Inr (n, s') \<Longrightarrow> step s s'"
| addChild: "addChildrenSubject_onNext a key val prov s = Inr s' \<Longrightarrow> step s s'"
| subscribed: "step s (subscribe a s)"

inductive steps :: "state \<Rightarrow> state \<Rightarrow> bool" where
  none: "steps s s"
| more: "steps s s1 \<Longrightarrow> step s1 s2 \<Longrightarrow> steps s s2"

text \<open>
  One call, whether it returns or throws: \<open>call s s'\<close> when \<open>s'\<close> is the state the call
  leaves, on return or at the throw.
\<close>

inductive call :: "state \<Rightarrow> state \<Rightarrow> bool" where
  assigning: "call s (state_after (setNextState a newState s))"
| creating: "call s (state_of (createTree initialState prov provisionalNode s))"
| addingChild: "call s (state_after (addChildrenSubject_onNext a key val prov s))"
| subscribing: "call s (subscribe a s)"

text \<open>
  A cell \<open>c'\<close> extends \<open>c\<close> when its stream has emitted the values of \<open>c\<close> and then some
  more, and every subscriber of \<open>c\<close> is still there and has received exactly those new
  values, in that order. A state follows another when every cell of the older state is
  extended.
\<close>

definition extends :: "cell \<Rightarrow> cell \<Rightarrow> bool" where
  "extends c c' \<longleftrightarrow>
     (\<exists>new. published c' = published c @ new \<and>
            length (observers c) \<le> length (observers c') \<and>
            (\<forall>i < length (observers c). observers c' ! i = observers c ! i @ new))"

definition follows :: "state \<Rightarrow> state \<Rightarrow> bool" where
  "follows s s' \<longleftrightarrow> fresh s \<le> fresh s' \<and> (\<forall>a < fresh s. extends (cells s a) (cells s' a))"

text \<open>
  The history kept in \<open>combined\<close> is in order when every cell has one entry per published
  value and every entry says yes.
\<close>

definition combinedWhenPublished :: "state \<Rightarrow> bool" where
  "combinedWhenPublished s \<longleftrightarrow>
     (\<forall>a. length (combined (cells s a)) = length (published (cells s a)) \<and>
          (\<forall>b \<in> set (combined (cells s a)). b))"

section \<open>What holds of every primitive holds of every call\<close>

lemma state_of_simps [simp]:
  "state_of (Inl (e, s)) = s" "state_of (Inr (n, s)) = s"
  by (simp_all add: state_of_def)

lemma state_after_simps [simp]:
  "state_after (Inl (e, s)) = s" "state_after (Inr s) = s"
  by (simp_all add: state_after_def)

lemma create_preserves:
  fixes P :: "state \<Rightarrow> bool"
  assumes leaf: "\<And>v pn s. P s \<Longrightarrow> P (state_of (createLeaf v pn s))"
    and new: "\<And>s. P s \<Longrightarrow> P (snd (alloc blank s))"
    and pause: "\<And>b s. P s \<Longrightarrow> P (pauser_onNext b s)"
    and sub: "\<And>a s. P s \<Longrightarrow> P (subscribe_valueSubject a s)"
    and take: "\<And>pn a s. P s \<Longrightarrow> P (takeOver pn a s)"
    and emit: "\<And>a ch s. P s \<Longrightarrow> P (childrenObservable_onNext a ch s)"
    and err: "\<And>a s. P s \<Longrightarrow> P (childrenObservable_onError a s)"
  shows "P s \<longrightarrow> P (state_of (createTree initialState prov provisionalNode s))"
    and "P s2 \<longrightarrow> P (state_of (createInitialTree initialState2 prov2 provisionalNode2 s2))"
    and "P s3 \<longrightarrow> P (state_of (createFinalTreeFromProvisionalNode initialState3 pn3 s3))"
    and "P s4 \<longrightarrow> P (state_after (updateAddChildrenSubject initialState4 a4 s4))"
    and "P s5 \<longrightarrow> P (state_after (forEach_onNext kvs a5 s5))"
    and "P s6 \<longrightarrow> P (state_after (addChildrenSubject_onNext a6 key val prov6 s6))"
    and "P s7 \<longrightarrow> P (state_of (createChildrenObservable a7 key7 val7 prov7 s7))"
proof (induction initialState prov provisionalNode s
    and initialState2 prov2 provisionalNode2 s2
    and initialState3 pn3 s3
    and initialState4 a4 s4
    and kvs a5 s5
    and a6 key val prov6 s6
    and a7 key7 val7 prov7 s7
    rule: createTree_createInitialTree_createFinalTreeFromProvisionalNode_updateAddChildrenSubject_forEach_onNext_addChildrenSubject_onNext_createChildrenObservable.induct)
  case (1 initialState prov provisionalNode s)
  show ?case
  proof (cases "initialState = Undefined")
    case True
    with 1 show ?thesis by (simp add: createTree.simps)
  next
    case defined: False
    show ?thesis
    proof (cases "\<not> prov \<and> \<not> isPlainObject initialState")
      case True
      with defined show ?thesis
        by (simp add: createTree.simps leaf)
    next
      case noLeaf: False
      show ?thesis
      proof (cases "\<not> prov \<and> provisionalNode \<noteq> None")
        case True
        with defined noLeaf "1.IH"(2) show ?thesis
          by (simp add: createTree.simps)
      next
        case False
        with defined noLeaf "1.IH"(3) show ?thesis
          by (auto simp add: createTree.simps)
      qed
    qed
  qed
next
  case (2 initialState prov provisionalNode s)
  obtain a s1 where al: "alloc blank s = (a, s1)"
    by (cases "alloc blank s")
  show ?case
  proof
    assume "P s"
    then have p1: "P s1"
      using new [of s] al by simp
    show "P (state_of (createInitialTree initialState prov provisionalNode s))"
    proof (cases prov)
      case True
      with al p1 show ?thesis
        by (simp add: createInitialTree.simps [of initialState] sub take)
    next
      case False
      with 2 al p1 have ih: "P (state_after (updateAddChildrenSubject initialState a s1))"
        by simp
      show ?thesis
      proof (cases "updateAddChildrenSubject initialState a s1")
        case (Inl es)
        with False al ih show ?thesis
          by (cases es) (simp add: createInitialTree.simps [of initialState])
      next
        case (Inr s2)
        with ih have "P s2" by simp
        then have "P (takeOver provisionalNode a (subscribe_valueSubject a s2))"
          by (intro take sub)
        with Inr False al show ?thesis
          by (simp add: createInitialTree.simps [of initialState])
      qed
    qed
  qed
next
  case (3 initialState provisionalNode s)
  then show ?case
    by (cases "updateAddChildrenSubject initialState (addr provisionalNode) s")
      (auto simp: createFinalTreeFromProvisionalNode.simps)
next
  case (4 initialState a s)
  show ?case
  proof
    assume "P s"
    then have p: "P (pauser_onNext False s)" by (rule pause)
    show "P (state_after (updateAddChildrenSubject initialState a s))"
    proof (cases "Object_keys initialState")
      case (Inl e)
      with \<open>P s\<close> show ?thesis
        by (simp add: updateAddChildrenSubject.simps [of initialState])
    next
      case keys: (Inr keys)
      show ?thesis
      proof (cases "forEach_onNext (properties initialState) a (pauser_onNext False s)")
        case (Inl es)
        with 4 [OF keys] p keys show ?thesis
          by (cases es) (simp add: updateAddChildrenSubject.simps [of initialState])
      next
        case (Inr s1)
        with 4 [OF keys] p have "P s1" by simp
        then have "P (pauser_onNext True s1)" by (rule pause)
        with Inr keys show ?thesis
          by (simp add: updateAddChildrenSubject.simps [of initialState])
      qed
    qed
  qed
next
  case (5 a s)
  show ?case by simp
next
  case (6 key val kvs a s)
  show ?case
  proof (cases "addChildrenSubject_onNext a key val False s")
    case (Inl es)
    with 6 show ?thesis by (cases es) auto
  next
    case (Inr s1)
    with 6 show ?thesis by simp
  qed
next
  case (7 a key val prov s)
  show ?case
  proof (cases "stopped (cells s a)")
    case True
    then show ?thesis
      by (simp add: addChildrenSubject_onNext.simps [of a])
  next
    case False
    show ?thesis
    proof (cases "createChildrenObservable a key val prov s")
      case (Inl es)
      with False 7 show ?thesis
        by (cases es) (simp add: addChildrenSubject_onNext.simps [of a] err)
    next
      case (Inr cs)
      with False 7 show ?thesis
        by (cases cs) (simp add: addChildrenSubject_onNext.simps [of a] emit)
    qed
  qed
next
  case (8 a key val prov s)
  let ?acc = "getChildrenSubject (cells s a)"
  show ?case
  proof (cases "map_of ?acc key = None \<and> key \<in> set Object_prototype")
    case True
    then show ?thesis
      by (simp add: createChildrenObservable.simps [of a] Let_def)
  next
    case known: False
    show ?thesis
    proof (cases "map_of ?acc key = None \<or> provisional (the (map_of ?acc key))")
      case False
      with known show ?thesis
        by (auto simp add: createChildrenObservable.simps [of a] Let_def)
    next
      case True
      with known 8 have ih: "P s \<longrightarrow> P (state_of (createTree val prov (map_of ?acc key) s))"
        by simp
      show ?thesis
      proof (cases "createTree val prov (map_of ?acc key) s")
        case (Inl es)
        with True known ih show ?thesis
          by (cases es) (auto simp: createChildrenObservable.simps [of a] Let_def)
      next
        case (Inr ns)
        with True known ih show ?thesis
          by (cases ns) (auto simp: createChildrenObservable.simps [of a] Let_def)
      qed
    qed
  qed
qed

lemma setNextState_preserves:
  fixes P :: "state \<Rightarrow> bool"
  assumes onNext: "\<And>a v s. P s \<Longrightarrow> isLeaf (cells s a) \<Longrightarrow> P (subject_onNext a v s)"
    and dispose: "\<And>a s. P s \<Longrightarrow> P (update_cell a (\<lambda>c. c\<lparr>disposed := True\<rparr>) s)"
  shows "P s \<longrightarrow> P (state_after (setNextState a newState s))"
    and "P s'' \<longrightarrow> P (state_after (createTreeSetNextState a'' newState'' s''))"
    and "P s' \<longrightarrow> P (state_after (forEach_setNextState children newState' s'))"
proof (induction a newState s and a'' newState'' s'' and children newState' s'
    rule: setNextState_createTreeSetNextState_forEach_setNextState.induct)
  case (1 a newState s)
  then show ?case
    by (cases "isLeaf (cells s a)") (simp_all add: setNextState.simps [of a] onNext)
next
  case (2 a newState s)
  show ?case
  proof (cases "disposed (cells s a)")
    case True
    then show ?thesis by (simp add: createTreeSetNextState.simps [of a])
  next
    case live: False
    show ?thesis
    proof (cases "childrenObservable (cells s a)")
      case None
      with live show ?thesis by (simp add: createTreeSetNextState.simps [of a])
    next
      case (Some children)
      show ?thesis
      proof (cases "Object_keys newState")
        case (Inl e)
        with live Some show ?thesis
          by (simp add: createTreeSetNextState.simps [of a] dispose)
      next
        case (Inr newKeys)
        show ?thesis
        proof (cases "length newKeys \<noteq> length (map fst children)")
          case True
          with live Some Inr show ?thesis
            by (simp add: createTreeSetNextState.simps [of a] dispose)
        next
          case False
          note ih = "2.IH" [OF live Some refl Inr False]
          show ?thesis
          proof (cases "forEach_setNextState children newState s")
            case (Inl es)
            with ih live Some Inr False show ?thesis
              by (cases es) (simp add: createTreeSetNextState.simps [of a] dispose)
          next
            case r: (Inr s1)
            with ih live Some Inr False show ?thesis
              by (simp add: createTreeSetNextState.simps [of a])
          qed
        qed
      qed
    qed
  qed
next
  case (3 newState s)
  show ?case by simp
next
  case (4 key child children newState s)
  show ?case
  proof (cases "in_op key newState")
    case (Inl e)
    then show ?thesis by simp
  next
    case present: (Inr present)
    show ?thesis
    proof (cases present)
      case False
      with present show ?thesis by simp
    next
      case True
      show ?thesis
      proof (cases "setNextState (addr child) (get newState key) s")
        case (Inl es)
        with 4(1) [OF present True] present True show ?thesis
          by (cases es) simp
      next
        case (Inr s1)
        with 4(1) [OF present True] 4(2) [OF present True Inr] present True
        show ?thesis by simp
      qed
    qed
  qed
qed

section \<open>Streams only grow, and every subscriber hears all of it\<close>

lemma extends_refl [simp]: "extends c c"
  unfolding extends_def by (rule exI [of _ "[]"]) simp

lemma extends_trans:
  assumes "extends c c'" and "extends c' c''"
  shows "extends c c''"
proof -
  from assms(1) obtain n1 where 1: "published c' = published c @ n1"
    "length (observers c) \<le> length (observers c')"
    "\<forall>i < length (observers c). observers c' ! i = observers c ! i @ n1"
    unfolding extends_def by blast
  from assms(2) obtain n2 where 2: "published c'' = published c' @ n2"
    "length (observers c') \<le> length (observers c'')"
    "\<forall>i < length (observers c'). observers c'' ! i = observers c' ! i @ n2"
    unfolding extends_def by blast
  show ?thesis
    unfolding extends_def
  proof (intro exI [of _ "n1 @ n2"] conjI allI impI)
    show "published c'' = published c @ n1 @ n2" using 1 2 by simp
    show "length (observers c) \<le> length (observers c'')" using 1 2 by simp
    fix i assume i: "i < length (observers c)"
    then have "i < length (observers c')" using 1 by simp
    with i show "observers c'' ! i = observers c ! i @ n1 @ n2" using 1 2 by simp
  qed
qed

lemma extends_same: "published c' = published c \<Longrightarrow> observers c' = observers c \<Longrightarrow> extends c c'"
  unfolding extends_def by (intro exI [of _ "[]"]) simp

lemma extends_more_observers:
  "published c' = published c \<Longrightarrow> observers c' = observers c @ extra \<Longrightarrow> extends c c'"
  unfolding extends_def by (intro exI [of _ "[]"]) (simp add: nth_append)

lemma follows_refl [simp]: "follows s s"
  by (simp add: follows_def)

lemma follows_trans: "follows s s1 \<Longrightarrow> follows s1 s2 \<Longrightarrow> follows s s2"
  unfolding follows_def by (meson extends_trans le_trans less_le_trans)

lemma follows_update_cell:
  "extends (cells s a) (f (cells s a)) \<Longrightarrow> follows s (update_cell a f s)"
  by (simp add: follows_def update_cell_def)

lemma follows_deliver: "follows s (deliver a v s)"
  unfolding deliver_def
  by (rule follows_update_cell) (simp add: extends_def exI [of _ "[v]"])

lemma follows_publish: "follows s (publish a v s)"
proof (induction a v s rule: publish.induct)
  case (1 a v s)
  show ?case
  proof (cases "combiner (deliver a v s) a")
    case None
    then show ?thesis by (simp add: publish.simps [of a v s] follows_deliver)
  next
    case (Some p)
    show ?thesis
    proof (cases "createTreeObservable (deliver a v s) (childrenObservable (cells (deliver a v s) p))")
      case None
      with Some show ?thesis by (simp add: publish.simps [of a v s] follows_deliver)
    next
      case (Some w)
      with \<open>combiner (deliver a v s) a = Some p\<close> have "follows (deliver a v s) (publish p w (deliver a v s))"
        using "1.IH" by simp
      with Some \<open>combiner (deliver a v s) a = Some p\<close> show ?thesis
        by (simp add: publish.simps [of a v s]) (rule follows_trans [OF follows_deliver])
    qed
  qed
qed

lemma follows_connect: "follows s (connect a s)"
  unfolding connect_def Let_def
  by (auto split: option.splits intro!: follows_update_cell extends_same
      follows_trans [OF follows_update_cell follows_publish])

lemma follows_disconnect: "follows s (disconnect a s)"
  unfolding disconnect_def by (rule follows_update_cell) (simp add: extends_same)

lemma follows_notify: "follows s (notify as b s)"
proof (induction as arbitrary: s)
  case Nil
  show ?case by simp
next
  case (Cons a as)
  have "follows s (if connected (cells s a) = b then s else if b then connect a s else disconnect a s)"
    by (simp add: follows_connect follows_disconnect)
  then show ?case
    by (simp add: follows_trans [OF _ Cons.IH] cong: if_cong)
qed

lemma follows_fields [simp]:
  "follows s (s\<lparr>pauser := b\<rparr>)" "follows s (s\<lparr>pausables := l\<rparr>)"
  by (simp_all add: follows_def)

lemma follows_pauser_onNext: "follows s (pauser_onNext b s)"
  unfolding pauser_onNext_def by (rule follows_trans [OF _ follows_notify]) simp

lemma follows_subscribe_valueSubject: "follows s (subscribe_valueSubject a s)"
  unfolding subscribe_valueSubject_def Let_def
  by (auto intro: follows_trans [OF _ follows_connect])

lemma follows_childrenObservable_onNext: "follows s (childrenObservable_onNext a children s)"
  unfolding childrenObservable_onNext_def Let_def
  by (auto split: option.splits intro!: follows_update_cell extends_same
      follows_trans [OF follows_update_cell follows_publish])

lemma follows_childrenObservable_onError: "follows s (childrenObservable_onError a s)"
  unfolding childrenObservable_onError_def
  by (rule follows_update_cell) (simp add: extends_same)

lemma follows_alloc: "follows s (snd (alloc c s))"
  by (simp add: follows_def alloc_def)

lemma follows_takeOver: "follows s (takeOver provisionalNode a s)"
  unfolding takeOver_def
  by (auto split: option.splits intro!: follows_update_cell extends_more_observers)

lemma follows_alloc': "alloc c s = (a, s1) \<Longrightarrow> follows s s1"
  using follows_alloc [of s c] by simp

lemma follows_createLeaf: "follows s (state_of (createLeaf initialState provisionalNode s))"
  by (auto simp: createLeaf_def split: prod.splits
      intro!: follows_trans [OF follows_alloc' follows_takeOver])

lemma follows_create:
  "follows s (state_of (createTree initialState prov provisionalNode s))"
  "follows s (state_after (addChildrenSubject_onNext a key val prov s))"
proof -
  let ?P = "\<lambda>s'. follows s s'"
  have leaf: "\<And>v pn s'. ?P s' \<Longrightarrow> ?P (state_of (createLeaf v pn s'))"
    by (blast intro: follows_trans follows_createLeaf)
  have new: "\<And>s'. ?P s' \<Longrightarrow> ?P (snd (alloc blank s'))"
    by (blast intro: follows_trans follows_alloc)
  have pause: "\<And>b s'. ?P s' \<Longrightarrow> ?P (pauser_onNext b s')"
    by (blast intro: follows_trans follows_pauser_onNext)
  have sub: "\<And>a s'. ?P s' \<Longrightarrow> ?P (subscribe_valueSubject a s')"
    by (blast intro: follows_trans follows_subscribe_valueSubject)
  have take: "\<And>pn a s'. ?P s' \<Longrightarrow> ?P (takeOver pn a s')"
    by (blast intro: follows_trans follows_takeOver)
  have emit: "\<And>a ch s'. ?P s' \<Longrightarrow> ?P (childrenObservable_onNext a ch s')"
    by (blast intro: follows_trans follows_childrenObservable_onNext)
  have err: "\<And>a s'. ?P s' \<Longrightarrow> ?P (childrenObservable_onError a s')"
    by (blast intro: follows_trans follows_childrenObservable_onError)
  note all = create_preserves [of ?P, OF leaf new pause sub take emit err]
  from all(1) [of s initialState prov provisionalNode]
  show "follows s (state_of (createTree initialState prov provisionalNode s))" by simp
  from all(6) [of s a key val prov]
  show "follows s (state_after (addChildrenSubject_onNext a key val prov s))" by simp
qed

lemma publish_cell: "a \<le> b \<Longrightarrow> cells (publish a v s) b = cells (deliver a v s) b"
proof (induction a v s rule: publish.induct)
  case (1 a v s)
  let ?s1 = "deliver a v s"
  show ?case
  proof (cases "combiner ?s1 a")
    case None
    then show ?thesis by (simp add: publish.simps [of a v s])
  next
    case (Some p)
    then have "p < a"
      unfolding combiner_def by (auto simp: find_Some_iff)
    with "1.prems" have pb: "p \<le> b" "b \<noteq> p" by simp_all
    show ?thesis
    proof (cases "createTreeObservable ?s1 (childrenObservable (cells ?s1 p))")
      case None
      with Some show ?thesis by (simp add: publish.simps [of a v s])
    next
      case w: (Some w)
      from "1.IH" [OF refl Some w pb(1)]
      have "cells (publish p w ?s1) b = cells (deliver p w ?s1) b" .
      also have "\<dots> = cells ?s1 b"
        using pb(2) by (simp add: deliver_def update_cell_def)
      finally show ?thesis
        using Some w by (simp add: publish.simps [of a v s])
    qed
  qed
qed

lemma follows_subject_onNext: "follows s (subject_onNext a v s)"
  unfolding subject_onNext_def Let_def
  by (auto intro!: follows_update_cell extends_same
      follows_trans [OF follows_update_cell follows_publish])

lemma follows_setNextState: "follows s (state_after (setNextState a newState s))"
proof -
  let ?P = "\<lambda>s'. follows s s'"
  have onNext: "\<And>a v s'. ?P s' \<Longrightarrow> isLeaf (cells s' a) \<Longrightarrow> ?P (subject_onNext a v s')"
    by (blast intro: follows_trans follows_subject_onNext)
  have dispose: "\<And>a s'. ?P s' \<Longrightarrow> ?P (update_cell a (\<lambda>c. c\<lparr>disposed := True\<rparr>) s')"
    by (rule follows_trans, assumption, rule follows_update_cell) (simp add: extends_same)
  from setNextState_preserves(1) [of ?P, OF onNext dispose, of s a newState]
  show ?thesis by simp
qed

lemma follows_subscribe: "follows s (subscribe a s)"
  unfolding subscribe_def
  by (rule follows_update_cell) (simp add: extends_def nth_append)

lemma follows_step: "step s s' \<Longrightarrow> follows s s'"
proof (induction rule: step.induct)
  case (assign a newState s s')
  with follows_setNextState [of s a newState] show ?case by simp
next
  case (create initialState prov provisionalNode s n s')
  with follows_create(1) [of s initialState prov provisionalNode] show ?case by simp
next
  case (addChild a key val prov s s')
  with follows_create(2) [of s a key val prov] show ?case by simp
next
  case (subscribed s a)
  show ?case by (rule follows_subscribe)
qed

lemma returned: "thrown r = None \<Longrightarrow> r = Inr (state_after r)"
  by (auto simp: thrown_def state_after_def split: sum.splits)

lemma node_of_Some: "node_of r = Some n \<Longrightarrow> r = Inr (n, state_of r)"
  by (auto simp: node_of_def state_of_def split: sum.splits)

lemma follows_steps: "steps s s' \<Longrightarrow> follows s s'"
  by (induction rule: steps.induct) (auto intro: follows_trans follows_step)

lemma received_since:
  assumes "follows s s'" and "a < fresh s" and "i < length (observers (cells s a))"
  shows "i < length (observers (cells s' a)) \<and>
    observers (cells s' a) ! i =
      observers (cells s a) ! i @ drop (length (published (cells s a))) (published (cells s' a))"
proof -
  from assms(1,2) have "extends (cells s a) (cells s' a)"
    by (simp add: follows_def)
  then obtain new where "published (cells s' a) = published (cells s a) @ new"
    "length (observers (cells s a)) \<le> length (observers (cells s' a))"
    "\<forall>i < length (observers (cells s a)). observers (cells s' a) ! i = observers (cells s a) ! i @ new"
    unfolding extends_def by blast
  with assms(3) show ?thesis by simp
qed

section \<open>Assignments to a branch\<close>

lemma withLatestFrom_nothing_emitted:
  "\<not> isLeaf (cells s a) \<Longrightarrow> childrenObservable (cells s a) = None \<Longrightarrow>
   setNextState a newState s = Inr s"
  by (simp add: setNextState.simps createTreeSetNextState.simps)

text \<open>
  Once \<^verbatim>\<open>childrenObservable\<close> has emitted, and while the subscriber is attached, a
  new state whose keys are not those of the last registry makes \<^verbatim>\<open>setNextState\<close>
  throw: at once, with no value touched, when the counts differ, and otherwise in the
  loop, at the first key of the registry the new state lacks unless a child's setter
  has thrown before.
\<close>

lemma count_mismatch_rejected:
  assumes "\<not> isLeaf (cells s a)" and "\<not> disposed (cells s a)"
    and "childrenObservable (cells s a) = Some children"
    and "Object_keys newState = Inr newKeys" and "length newKeys \<noteq> length children"
  shows "setNextState a newState s =
    Inl (ShapeError, update_cell a (\<lambda>c. c\<lparr>disposed := True\<rparr>) s)"
  using assms by (simp add: setNextState.simps createTreeSetNextState.simps)

lemma missing_key_rejected:
  assumes "key \<in> fst ` set children" and "key \<notin> fst ` set kvs"
  shows "\<exists>e s'. forEach_setNextState children (Obj kvs) s = Inl (e, s')"
  using assms
proof (induction children arbitrary: s)
  case Nil
  then show ?case by simp
next
  case (Cons kn children)
  obtain k child where kn: "kn = (k, child)" by (cases kn)
  show ?case
  proof (cases "k \<in> fst ` set kvs")
    case False
    with kn show ?thesis by simp
  next
    case True
    with Cons.prems kn have "key \<in> fst ` set children" by auto
    note ih = Cons.IH [OF this Cons.prems(2)]
    show ?thesis
    proof (cases "setNextState (addr child) (get (Obj kvs) k) s")
      case (Inl es)
      with True kn show ?thesis by (cases es) simp
    next
      case (Inr s1)
      with True kn ih [of s1] show ?thesis by simp
    qed
  qed
qed

lemma key_set_mismatch_rejected:
  assumes "\<not> isLeaf (cells s a)" and "\<not> disposed (cells s a)"
    and "childrenObservable (cells s a) = Some children"
    and "distinct (map fst children)" and "distinct (map fst kvs)"
    and "fst ` set kvs \<noteq> fst ` set children"
  shows "\<exists>e s'. setNextState a (Obj kvs) s = Inl (e, s')"
proof (cases "length kvs = length children")
  case False
  with count_mismatch_rejected [OF assms(1,2,3), of "Obj kvs" "map fst kvs"] show ?thesis
    by simp
next
  case True
  have "\<not> fst ` set children \<subseteq> fst ` set kvs"
  proof
    assume sub: "fst ` set children \<subseteq> fst ` set kvs"
    have "card (fst ` set children) = length children"
      using assms(4) distinct_card [of "map fst children"] by simp
    moreover have "card (fst ` set kvs) = length kvs"
      using assms(5) distinct_card [of "map fst kvs"] by simp
    ultimately have "card (fst ` set children) = card (fst ` set kvs)"
      using True by simp
    with sub have "fst ` set children = fst ` set kvs"
      by (simp add: card_subset_eq)
    with assms(6) show False by simp
  qed
  then obtain key where "key \<in> fst ` set children" "key \<notin> fst ` set kvs" by blast
  from missing_key_rejected [OF this, of s] obtain e s'
    where "forEach_setNextState children (Obj kvs) s = Inl (e, s')" by blast
  with True assms(1,2,3) show ?thesis
    by (simp add: setNextState.simps createTreeSetNextState.simps)
qed

text \<open>
  C1. A finalized branch must reject, with a shape error, a new state whose keys differ
  from those of its registry. The branch made from the empty object \<^verbatim>\<open>{}\<close> is
  finalized and its registry has no key, yet \<^verbatim>\<open>setNextState({ a: 1 })\<close> returns
  normally and leaves the state as it was: \<^verbatim>\<open>childrenObservable\<close> has emitted nothing,
  so \<^verbatim>\<open>withLatestFrom\<close> never hands the new state to the validating subscriber.
\<close>

theorem setNextState_empty_branch_not_rejected:
  "node_of (createTree (Obj []) False None start) = Some (createNode 0 False) \<and>
   isLeaf (cells emptyBranch 0) = False \<and>
   getChildrenSubject (cells emptyBranch 0) = [] \<and>
   setNextState 0 (Obj [(''a'', Num 1)]) emptyBranch = Inr emptyBranch"
proof -
  have "node_of (createTree (Obj []) False None start) = Some (createNode 0 False)"
    by code_simp
  moreover have leaf: "isLeaf (cells emptyBranch 0) = False"
    by code_simp
  moreover have "getChildrenSubject (cells emptyBranch 0) = []"
    by code_simp
  moreover have "childrenObservable (cells emptyBranch 0) = None"
    by code_simp
  with leaf have "setNextState 0 (Obj [(''a'', Num 1)]) emptyBranch = Inr emptyBranch"
    by (simp add: withLatestFrom_nothing_emitted)
  ultimately show ?thesis by simp
qed

text \<open>
  C2. A rejected assignment must leave every value of the tree unchanged. On the branch
  \<^verbatim>\<open>{ a: 1, b: 2 }\<close> the assignment \<^verbatim>\<open>{ a: 5, c: 6 }\<close> has as many keys as the registry,
  so the loop over the registry's keys starts: it sets the leaf \<^verbatim>\<open>a\<close> to 5, the branch
  publishes \<^verbatim>\<open>{ a: 5, b: 2 }\<close>, and only then the missing key \<^verbatim>\<open>b\<close> throws the shape
  error.
\<close>

theorem rejected_assignment_partially_applied:
  "thrown rejected = Some ShapeError \<and>
   latest twoLeaves 1 = Some (Num 1) \<and>
   latest (state_after rejected) 1 = Some (Num 5) \<and>
   published (cells twoLeaves 0) = [Obj [(''a'', Num 1), (''b'', Num 2)]] \<and>
   published (cells (state_after rejected) 0) =
     [Obj [(''a'', Num 1), (''b'', Num 2)], Obj [(''a'', Num 5), (''b'', Num 2)]]"
  by code_simp

text \<open>
  C10. A branch whose \<^verbatim>\<open>childrenObservable\<close> has emitted nothing, as that of a
  provisional node no child was ever added to, ignores \<^verbatim>\<open>setNextState\<close>: whatever the
  new state, the call returns normally and the state is the one before the call.
\<close>

theorem setNextState_before_first_child_is_dropped:
  assumes "\<not> isLeaf (cells s a)" and "childrenObservable (cells s a) = None"
  shows "setNextState a newState s = Inr s"
  using assms by (rule withLatestFrom_nothing_emitted)

theorem setNextState_before_first_child_is_dropped_witness:
  "node_of (createTree Undefined False None start) = Some (createNode 0 True) \<and>
   isLeaf (cells provisionalRoot 0) = False \<and>
   childrenObservable (cells provisionalRoot 0) = None \<and>
   setNextState 0 (Obj [(''a'', Num 1)]) provisionalRoot = Inr provisionalRoot \<and>
   setNextState 0 (Num 7) provisionalRoot = Inr provisionalRoot"
proof -
  have n: "node_of (createTree Undefined False None start) = Some (createNode 0 True)"
    by code_simp
  have l: "isLeaf (cells provisionalRoot 0) = False"
    by code_simp
  have c: "childrenObservable (cells provisionalRoot 0) = None"
    by code_simp
  from l have l': "\<not> isLeaf (cells provisionalRoot 0)" by simp
  show ?thesis
    using n l c
      setNextState_before_first_child_is_dropped [OF l' c, of "Obj [(''a'', Num 1)]"]
      setNextState_before_first_child_is_dropped [OF l' c, of "Num 7"]
    by simp
qed

section \<open>Bulk declaration and the pause gate\<close>

text \<open>
  C5. While a branch is given its children in bulk, a subscriber must not see a combined
  value with only some of them. The subscriber of a provisional root that is given
  \<^verbatim>\<open>{ a: { x: 1 }, b: 2 }\<close> receives \<^verbatim>\<open>{ a: { x: 1 } }\<close> first: building the child \<^verbatim>\<open>a\<close>
  runs \<^verbatim>\<open>updateAddChildrenSubject\<close> for \<^verbatim>\<open>{ x: 1 }\<close> on the same pauser, whose final
  \<^verbatim>\<open>pauser.onNext(true)\<close> reconnects the root before \<^verbatim>\<open>b\<close> is declared.
\<close>

theorem bulk_declaration_torn_by_nested_object:
  "observers (cells watchedRoot 0) = [[]] \<and>
   node_of finalizedRoot = Some (createNode 0 False) \<and>
   observers (cells (state_of finalizedRoot) 0) =
     [[Obj [(''a'', Obj [(''x'', Num 1)])],
       Obj [(''a'', Obj [(''x'', Num 1)]), (''b'', Num 2)]]]"
  by code_simp

section \<open>Promotion to a leaf\<close>



section \<open>Replay\<close>

text \<open>
  C9. A node that has a latest value hands it at once to a new subscriber of its stream;
  whatever the module does afterwards, that subscriber has received the latest value
  followed by exactly the values the stream has emitted since, in the order of emission.
\<close>

theorem replay_then_changes:
  assumes "a < fresh s" and "latest s a = Some v" and "steps (subscribe a s) s'"
  shows "observers (cells (subscribe a s) a) = observers (cells s a) @ [[v]] \<and>
    length (observers (cells s a)) < length (observers (cells s' a)) \<and>
    observers (cells s' a) ! length (observers (cells s a)) =
      v # drop (length (published (cells s a))) (published (cells s' a))"
proof -
  let ?s0 = "subscribe a s"
  have obs: "observers (cells ?s0 a) = observers (cells s a) @ [[v]]"
    and pub: "published (cells ?s0 a) = published (cells s a)"
    and fr: "fresh ?s0 = fresh s"
    using assms(2) by (simp_all add: subscribe_def update_cell_def)
  from assms(3) have "follows ?s0 s'" by (rule follows_steps)
  from received_since [OF this, of a "length (observers (cells s a))"] assms(1) obs pub fr
  show ?thesis by simp
qed

theorem replay_then_changes_witness:
  "latest twoLeaves 0 = Some (Obj [(''a'', Num 1), (''b'', Num 2)]) \<and>
   observers (cells (subscribe 0 twoLeaves) 0) = [[Obj [(''a'', Num 1), (''b'', Num 2)]]] \<and>
   observers (cells reassigned 0) ! 0 =
     [Obj [(''a'', Num 1), (''b'', Num 2)], Obj [(''a'', Num 5), (''b'', Num 2)],
      Obj [(''a'', Num 5), (''b'', Num 6)]]"
proof -
  have f: "0 < fresh twoLeaves" by code_simp
  have l: "latest twoLeaves 0 = Some (Obj [(''a'', Num 1), (''b'', Num 2)])" by code_simp
  have o: "observers (cells twoLeaves 0) = []" by code_simp
  have p: "published (cells twoLeaves 0) = [Obj [(''a'', Num 1), (''b'', Num 2)]]" by code_simp
  have p': "published (cells reassigned 0) =
     [Obj [(''a'', Num 1), (''b'', Num 2)], Obj [(''a'', Num 5), (''b'', Num 2)],
      Obj [(''a'', Num 5), (''b'', Num 6)]]" by code_simp
  have "thrown (setNextState 0 (Obj [(''a'', Num 5), (''b'', Num 6)]) (subscribe 0 twoLeaves)) = None"
    by code_simp
  then have "step (subscribe 0 twoLeaves) reassigned"
    unfolding reassigned_def by (rule step.assign [OF returned])
  then have "steps (subscribe 0 twoLeaves) reassigned"
    by (rule steps.more [OF steps.none])
  from replay_then_changes [OF f l this] o p p' l show ?thesis by simp
qed

section \<open>The combined value\<close>

text \<open>
  Every value \<^verbatim>\<open>createTreeObservable\<close> emits is an object whose keys are the keys of the
  non-provisional children of the registry it was computed from, and every entry is the
  latest value of such a child.
\<close>

lemma combined_value_entries:
  assumes "createTreeObservable s childrenObs = Some w"
  shows "\<exists>children latestValues. childrenObs = Some children \<and> w = Obj latestValues \<and>
     map fst latestValues = map fst (filter (\<lambda>kn. \<not> provisional (snd kn)) children) \<and>
     (\<forall>kv \<in> set latestValues. \<exists>child. (fst kv, child) \<in> set children \<and>
        \<not> provisional child \<and> latest s (addr child) = Some (snd kv))"
proof -
  from assms obtain children where c: "childrenObs = Some children"
    by (cases childrenObs) (simp_all add: createTreeObservable_def)
  let ?nodes = "filter (\<lambda>kn. \<not> provisional (snd kn)) children"
  let ?sources = "map (\<lambda>kn. (fst kn, latest s (addr (snd kn)))) ?nodes"
  from assms c have "children \<noteq> []"
    by (auto simp: createTreeObservable_def combineLatest_def)
  then have stage1: "combineLatest (map (\<lambda>kn. (fst kn, Some (snd kn))) children) = Some children"
    by (auto simp: combineLatest_def comp_def intro: map_idI)
  with assms c obtain latestValues where w: "w = Obj latestValues"
    and lv: "combineLatest ?sources = Some latestValues"
    by (auto simp: createTreeObservable_def split: option.splits)
  from lv have all: "\<forall>kv \<in> set ?sources. snd kv \<noteq> None"
    and eq: "latestValues = map (\<lambda>kv. (fst kv, the (snd kv))) ?sources"
    by (auto simp: combineLatest_def split: if_splits)
  have keys: "map fst latestValues = map fst ?nodes"
    using eq by (simp add: comp_def)
  have "\<exists>child. (fst kv, child) \<in> set children \<and> \<not> provisional child \<and>
      latest s (addr child) = Some (snd kv)" if "kv \<in> set latestValues" for kv
  proof -
    from that eq obtain kn where kn: "kn \<in> set ?nodes"
      and kv: "kv = (fst kn, the (latest s (addr (snd kn))))"
      by auto
    from kn have "(fst kn, latest s (addr (snd kn))) \<in> set ?sources" by force
    with all have "latest s (addr (snd kn)) \<noteq> None" by force
    with kn kv show ?thesis
      by (intro exI [of _ "snd kn"]) auto
  qed
  with c w keys show ?thesis by blast
qed

lemma createTreeObservable_combinedValue:
  assumes "createTreeObservable s (childrenObservable (cells s a)) = Some w"
  shows "combinedValue s a w"
proof -
  from combined_value_entries [OF assms] obtain children latestValues
    where c: "childrenObservable (cells s a) = Some children" and w: "w = Obj latestValues"
      and e: "\<forall>kv \<in> set latestValues. \<exists>child. (fst kv, child) \<in> set children \<and>
        \<not> provisional child \<and> latest s (addr child) = Some (snd kv)"
    by blast
  have "list_ex (\<lambda>kn. fst kn = fst kv \<and> \<not> provisional (snd kn) \<and>
      latest s (addr (snd kn)) \<noteq> None) children" if "kv \<in> set latestValues" for kv
  proof -
    from e that obtain child where "(fst kv, child) \<in> set children" "\<not> provisional child"
      "latest s (addr child) = Some (snd kv)" by blast
    then show ?thesis
      unfolding list_ex_iff by (intro bexI [of _ "(fst kv, child)"]) simp_all
  qed
  with c w show ?thesis
    by (simp add: combinedValue_def list_all_iff)
qed

text \<open>
  A value enters the stream of a branch in three places: when its pausable connects, when
  its registry stream emits, and when a child it combines has published. In each of them
  what is appended to the stream is what \<^verbatim>\<open>createTreeObservable\<close> emits, in the state of
  that moment, for the last registry of the branch.
\<close>

lemma connect_published:
  "published (cells (connect a s) a) =
     published (cells s a) @
       (case createTreeObservable (update_cell a (\<lambda>c. c\<lparr>connected := True\<rparr>) s)
               (childrenObservable (cells s a)) of
          None \<Rightarrow> []
        | Some v \<Rightarrow> [v])"
  by (simp add: connect_def Let_def publish_cell deliver_def update_cell_def
      split: option.splits)

lemma childrenObservable_onNext_published:
  "published (cells (childrenObservable_onNext a children s) a) =
     published (cells s a) @
       (if connected (cells s a)
        then (case createTreeObservable
                (update_cell a (\<lambda>c. c\<lparr>getChildrenSubject := children,
                   childrenObservable := Some children\<rparr>) s) (Some children) of
                None \<Rightarrow> []
              | Some v \<Rightarrow> [v])
        else [])"
  by (simp add: childrenObservable_onNext_def Let_def publish_cell deliver_def update_cell_def
      split: option.splits)

lemma publish_published:
  assumes "combiner (deliver a v s) a = Some p"
  shows "published (cells (publish a v s) p) =
     published (cells s p) @
       (case createTreeObservable (deliver a v s) (childrenObservable (cells s p)) of
          None \<Rightarrow> []
        | Some w \<Rightarrow> [w])"
proof -
  from assms have "p < a"
    unfolding combiner_def by (auto simp: find_Some_iff)
  then have same: "cells (deliver a v s) p = cells s p"
    by (simp add: deliver_def update_cell_def)
  show ?thesis
  proof (cases "createTreeObservable (deliver a v s) (childrenObservable (cells s p))")
    case None
    with assms same show ?thesis by (simp add: publish.simps [of a v s])
  next
    case (Some w)
    with assms same have "cells (publish a v s) p = cells (deliver p w (deliver a v s)) p"
      by (simp add: publish.simps [of a v s] publish_cell)
    with Some same show ?thesis
      by (simp add: deliver_def update_cell_def)
  qed
qed

text \<open>
  The history stays in order: whenever a value is pushed into the stream of a branch it
  is, in the state it is pushed in, such a combination.
\<close>

lemma combined_update_cell:
  assumes "combinedWhenPublished s"
    and "published (f (cells s a)) = published (cells s a)"
    and "combined (f (cells s a)) = combined (cells s a)"
  shows "combinedWhenPublished (update_cell a f s)"
  using assms by (auto simp: combinedWhenPublished_def update_cell_def)

lemma combined_deliver:
  assumes "combinedWhenPublished s" and "isLeaf (cells s a) \<or> combinedValue s a v"
  shows "combinedWhenPublished (deliver a v s)"
  using assms by (auto simp: combinedWhenPublished_def deliver_def update_cell_def)

lemma combined_publish:
  "combinedWhenPublished s \<Longrightarrow> isLeaf (cells s a) \<or> combinedValue s a v \<Longrightarrow>
   combinedWhenPublished (publish a v s)"
proof (induction a v s rule: publish.induct)
  case (1 a v s)
  let ?s1 = "deliver a v s"
  from "1.prems" have d: "combinedWhenPublished ?s1" by (rule combined_deliver)
  show ?case
  proof (cases "combiner ?s1 a")
    case None
    with d show ?thesis by (simp add: publish.simps [of a v s])
  next
    case (Some p)
    show ?thesis
    proof (cases "createTreeObservable ?s1 (childrenObservable (cells ?s1 p))")
      case None
      with Some d show ?thesis by (simp add: publish.simps [of a v s])
    next
      case w: (Some w)
      then have "combinedValue ?s1 p w" by (rule createTreeObservable_combinedValue)
      with "1.IH" [OF refl Some w d] have "combinedWhenPublished (publish p w ?s1)" by simp
      with Some w show ?thesis by (simp add: publish.simps [of a v s])
    qed
  qed
qed

lemma combined_connect: "combinedWhenPublished s \<Longrightarrow> combinedWhenPublished (connect a s)"
proof -
  assume s: "combinedWhenPublished s"
  let ?s1 = "update_cell a (\<lambda>c. c\<lparr>connected := True\<rparr>) s"
  from s have s1: "combinedWhenPublished ?s1" by (rule combined_update_cell) simp_all
  show ?thesis
  proof (cases "createTreeObservable ?s1 (childrenObservable (cells ?s1 a))")
    case None
    with s1 show ?thesis by (simp add: connect_def)
  next
    case (Some v)
    then have "combinedValue ?s1 a v" by (rule createTreeObservable_combinedValue)
    with s1 have "combinedWhenPublished (publish a v ?s1)" by (simp add: combined_publish)
    with Some show ?thesis by (simp add: connect_def)
  qed
qed

lemma combined_disconnect: "combinedWhenPublished s \<Longrightarrow> combinedWhenPublished (disconnect a s)"
  unfolding disconnect_def by (rule combined_update_cell) simp_all

lemma combined_notify: "combinedWhenPublished s \<Longrightarrow> combinedWhenPublished (notify as b s)"
proof (induction as arbitrary: s)
  case Nil
  then show ?case by simp
next
  case (Cons a as)
  then have "combinedWhenPublished
      (if connected (cells s a) = b then s else if b then connect a s else disconnect a s)"
    by (simp add: combined_connect combined_disconnect)
  then show ?case
    using Cons.IH by (simp cong: if_cong)
qed

lemma combined_pauser_onNext:
  "combinedWhenPublished s \<Longrightarrow> combinedWhenPublished (pauser_onNext b s)"
proof -
  assume "combinedWhenPublished s"
  then have "combinedWhenPublished (s\<lparr>pauser := b\<rparr>)"
    by (auto simp: combinedWhenPublished_def)
  then show ?thesis
    unfolding pauser_onNext_def using combined_notify [of "s\<lparr>pauser := b\<rparr>" "pausables s" b]
    by simp
qed

lemma combined_subscribe_valueSubject:
  "combinedWhenPublished s \<Longrightarrow> combinedWhenPublished (subscribe_valueSubject a s)"
proof -
  assume "combinedWhenPublished s"
  then have "combinedWhenPublished (s\<lparr>pausables := pausables s @ [a]\<rparr>)"
    by (auto simp: combinedWhenPublished_def)
  then show ?thesis
    by (simp add: subscribe_valueSubject_def Let_def combined_connect)
qed

lemma combined_childrenObservable_onNext:
  "combinedWhenPublished s \<Longrightarrow> combinedWhenPublished (childrenObservable_onNext a children s)"
proof -
  assume s: "combinedWhenPublished s"
  let ?s1 = "update_cell a (\<lambda>c. c\<lparr>getChildrenSubject := children,
      childrenObservable := Some children\<rparr>) s"
  from s have s1: "combinedWhenPublished ?s1" by (rule combined_update_cell) simp_all
  have r: "childrenObservable (cells ?s1 a) = Some children"
    by (simp add: update_cell_def)
  show ?thesis
  proof (cases "connected (cells ?s1 a)")
    case False
    with s1 show ?thesis by (simp add: childrenObservable_onNext_def Let_def)
  next
    case True
    show ?thesis
    proof (cases "createTreeObservable ?s1 (Some children)")
      case None
      with True s1 show ?thesis by (simp add: childrenObservable_onNext_def Let_def)
    next
      case (Some v)
      with r have "combinedValue ?s1 a v"
        using createTreeObservable_combinedValue [of ?s1 a v] by simp
      with s1 have "combinedWhenPublished (publish a v ?s1)" by (simp add: combined_publish)
      with True Some show ?thesis by (simp add: childrenObservable_onNext_def Let_def)
    qed
  qed
qed

lemma combined_childrenObservable_onError:
  "combinedWhenPublished s \<Longrightarrow> combinedWhenPublished (childrenObservable_onError a s)"
  unfolding childrenObservable_onError_def by (rule combined_update_cell) simp_all

lemma combined_alloc:
  assumes "combinedWhenPublished s" and "length (combined c) = length (published c)"
    and "\<forall>b \<in> set (combined c). b"
  shows "combinedWhenPublished (snd (alloc c s))"
  using assms by (auto simp: combinedWhenPublished_def alloc_def)

lemma combined_takeOver:
  "combinedWhenPublished s \<Longrightarrow> combinedWhenPublished (takeOver provisionalNode a s)"
  unfolding takeOver_def
  by (cases provisionalNode) (simp_all add: combined_update_cell)

lemma combined_createLeaf:
  assumes "combinedWhenPublished s"
  shows "combinedWhenPublished (state_of (createLeaf initialState provisionalNode s))"
proof (cases "case provisionalNode of None \<Rightarrow> False
    | Some pn \<Rightarrow> getChildrenSubject (cells s (addr pn)) \<noteq> []")
  case True
  with assms show ?thesis by (simp add: createLeaf_def)
next
  case False
  let ?c = "leafCell initialState"
  from assms have "combinedWhenPublished (snd (alloc ?c s))"
    by (rule combined_alloc) (simp_all add: leafCell_def)
  then have "combinedWhenPublished (takeOver provisionalNode (fst (alloc ?c s)) (snd (alloc ?c s)))"
    by (rule combined_takeOver)
  with False show ?thesis
    by (auto simp: createLeaf_def split: prod.splits)
qed

lemma combined_subject_onNext:
  assumes "combinedWhenPublished s" and "isLeaf (cells s a)"
  shows "combinedWhenPublished (subject_onNext a v s)"
proof -
  let ?s1 = "update_cell a (\<lambda>c. c\<lparr>subject := v\<rparr>) s"
  from assms(1) have s1: "combinedWhenPublished ?s1" by (rule combined_update_cell) simp_all
  from assms(2) have "isLeaf (cells ?s1 a)" by (simp add: update_cell_def)
  with s1 have "combinedWhenPublished (publish a v ?s1)" by (simp add: combined_publish)
  with s1 show ?thesis by (simp add: subject_onNext_def Let_def)
qed

lemma combined_subscribe: "combinedWhenPublished s \<Longrightarrow> combinedWhenPublished (subscribe a s)"
  unfolding subscribe_def by (rule combined_update_cell) simp_all

lemma combined_create:
  assumes "combinedWhenPublished s"
  shows "combinedWhenPublished (state_of (createTree initialState prov provisionalNode s))"
    and "combinedWhenPublished (state_after (addChildrenSubject_onNext a key val prov s))"
proof -
  have new: "\<And>s. combinedWhenPublished s \<Longrightarrow> combinedWhenPublished (snd (alloc blank s))"
    by (rule combined_alloc) (simp_all add: blank_def)
  note all = create_preserves [of combinedWhenPublished, OF combined_createLeaf new
      combined_pauser_onNext combined_subscribe_valueSubject combined_takeOver
      combined_childrenObservable_onNext combined_childrenObservable_onError]
  from all(1) [of s initialState prov provisionalNode] assms
  show "combinedWhenPublished (state_of (createTree initialState prov provisionalNode s))"
    by simp
  from all(6) [of s a key val prov] assms
  show "combinedWhenPublished (state_after (addChildrenSubject_onNext a key val prov s))"
    by simp
qed

lemma combined_setNextState:
  assumes "combinedWhenPublished s"
  shows "combinedWhenPublished (state_after (setNextState a newState s))"
proof -
  have dispose: "\<And>a s. combinedWhenPublished s \<Longrightarrow>
      combinedWhenPublished (update_cell a (\<lambda>c. c\<lparr>disposed := True\<rparr>) s)"
    by (rule combined_update_cell) simp_all
  from setNextState_preserves(1) [of combinedWhenPublished, OF combined_subject_onNext dispose,
      of s a newState] assms
  show ?thesis by simp
qed

lemma combined_call: "call s s' \<Longrightarrow> combinedWhenPublished s \<Longrightarrow> combinedWhenPublished s'"
  by (induction rule: call.induct)
    (simp_all add: combined_setNextState combined_create combined_subscribe)

lemma step_call: "step s s' \<Longrightarrow> call s s'"
proof (induction rule: step.induct)
  case (assign a newState s s')
  with call.assigning [of s a newState] show ?case by simp
next
  case (create initialState prov provisionalNode s n s')
  with call.creating [of s initialState prov provisionalNode] show ?case by simp
next
  case (addChild a key val prov s s')
  with call.addingChild [of s a key val prov] show ?case by simp
next
  case (subscribed s a)
  show ?case by (rule call.subscribing)
qed

lemma combined_steps: "steps s s' \<Longrightarrow> combinedWhenPublished s \<Longrightarrow> combinedWhenPublished s'"
  by (induction rule: steps.induct) (auto intro: combined_call step_call)

lemma combined_start: "combinedWhenPublished start"
  by (simp add: combinedWhenPublished_def start_def blank_def)

text \<open>
  C4. Take any run of calls from the empty store, and one more call that may return or
  throw. Every value a node has published by then has its entry in the history
  \<open>combined\<close>, and the entry says yes: when a value was pushed into the stream of a
  branch, it was an object whose every entry belonged to a child the registry of the
  branch held under that key at that moment, a child that was not provisional and whose
  stream had a latest value. So no published mapping has an entry for a provisional
  child or for a child that has published nothing.
\<close>

theorem published_values_are_combined:
  assumes "steps start s" and "call s s'" and "i < length (published (cells s' a))"
  shows "i < length (combined (cells s' a)) \<and> combined (cells s' a) ! i"
proof -
  from assms(1) combined_start have "combinedWhenPublished s" by (rule combined_steps)
  with assms(2) have "combinedWhenPublished s'" by (rule combined_call)
  then have l: "length (combined (cells s' a)) = length (published (cells s' a))"
    and t: "\<forall>b \<in> set (combined (cells s' a)). b"
    unfolding combinedWhenPublished_def by blast+
  from l assms(3) have i: "i < length (combined (cells s' a))" by simp
  then have "combined (cells s' a) ! i \<in> set (combined (cells s' a))" by (rule nth_mem)
  with t i show ?thesis by blast
qed

theorem published_values_are_combined_witness:
  "map_of (getChildrenSubject (cells withEmptyBranch 0)) ''b'' = Some (createNode 1 True) \<and>
   map_of (getChildrenSubject (cells withEmptyBranch 0)) ''a'' = Some (createNode 2 False) \<and>
   map_of (getChildrenSubject (cells withEmptyBranch 0)) ''e'' = Some (createNode 3 False) \<and>
   latest withEmptyBranch 2 = Some (Num 1) \<and>
   latest withEmptyBranch 3 = None \<and>
   published (cells withEmptyBranch 0) = [Obj [(''a'', Num 1)], Obj [(''a'', Num 1)]] \<and>
   combined (cells withEmptyBranch 0) ! 0 \<and>
   combined (cells withEmptyBranch 0) ! 1"
proof -
  have "node_of (createTree Undefined False None start) = Some (createNode 0 True)"
    by code_simp
  then have "createTree Undefined False None start = Inr (createNode 0 True, provisionalRoot)"
    unfolding provisionalRoot_def by (rule node_of_Some)
  then have 1: "steps start provisionalRoot"
    by (blast intro: steps.intros step.create)
  have "thrown (addChildrenSubject_onNext 0 ''b'' Undefined True provisionalRoot) = None"
    by code_simp
  then have "step provisionalRoot referencedChild"
    unfolding referencedChild_def by (rule step.addChild [OF returned])
  with 1 have 2: "steps start referencedChild" by (rule steps.more)
  have "step referencedChild watchedChild"
    unfolding watchedChild_def by (rule step.subscribed)
  with 2 have 3: "steps start watchedChild" by (rule steps.more)
  have "thrown (addChildrenSubject_onNext 0 ''a'' (Num 1) False watchedChild) = None"
    by code_simp
  then have "step watchedChild withLeaf"
    unfolding withLeaf_def by (rule step.addChild [OF returned])
  with 3 have s: "steps start withLeaf" by (rule steps.more)
  have c: "call withLeaf withEmptyBranch"
    unfolding withEmptyBranch_def by (rule call.addingChild)
  have p: "published (cells withEmptyBranch 0) = [Obj [(''a'', Num 1)], Obj [(''a'', Num 1)]]"
    by code_simp
  have r: "map_of (getChildrenSubject (cells withEmptyBranch 0)) ''b'' = Some (createNode 1 True)"
    "map_of (getChildrenSubject (cells withEmptyBranch 0)) ''a'' = Some (createNode 2 False)"
    "map_of (getChildrenSubject (cells withEmptyBranch 0)) ''e'' = Some (createNode 3 False)"
    by code_simp+
  have l: "latest withEmptyBranch 2 = Some (Num 1)" "latest withEmptyBranch 3 = None"
    by code_simp+
  from p have "0 < length (published (cells withEmptyBranch 0))"
    and "1 < length (published (cells withEmptyBranch 0))" by simp_all
  from published_values_are_combined [OF s c this(1)]
    published_values_are_combined [OF s c this(2)] p r l
  show ?thesis by simp
qed

section \<open>Leaves\<close>

text \<open>The comparer holds every value equal to itself.\<close>

lemma equalObjects_found:
  "distinct (map fst other) \<Longrightarrow> set kvs \<subseteq> set other \<Longrightarrow>
   (\<forall>kv \<in> set kvs. isEqual (snd kv) (snd kv)) \<Longrightarrow> equalObjects kvs other"
proof (induction kvs)
  case Nil
  show ?case by simp
next
  case (Cons kv kvs)
  obtain k v where kv: "kv = (k, v)" by (cases kv)
  with Cons.prems have m: "map_of other k = Some v" by simp
  have "equalObjects ((k, v) # kvs) other = (isEqual v v \<and> equalObjects kvs other)"
    by (simp only: equalObjects.simps m option.case)
  with Cons kv show ?case by simp
qed

lemma isEqual_refl: "jsvalue v \<Longrightarrow> isEqual v v"
proof (induction v)
  case (Obj kvs)
  have "\<forall>kv \<in> set kvs. isEqual (snd kv) (snd kv)"
  proof
    fix kv assume "kv \<in> set kvs"
    with Obj show "isEqual (snd kv) (snd kv)"
      by (cases kv) (auto simp: snds.simps)
  qed
  with Obj.prems show ?case by (simp add: equalObjects_found)
qed simp_all

lemma subject_onNext_fields:
  "isLeaf (cells (subject_onNext a v s) a) = isLeaf (cells s a)"
  "published (cells (subject_onNext a v s) a) =
     (if distinctUntilChanged (published (cells s a)) v then published (cells s a) @ [v]
      else published (cells s a))"
  "observers (cells (subject_onNext a v s) a) =
     (if distinctUntilChanged (published (cells s a)) v
      then map (\<lambda>l. l @ [v]) (observers (cells s a))
      else observers (cells s a))"
  by (simp_all add: subject_onNext_def Let_def publish_cell deliver_def update_cell_def)



section \<open>Add-child events\<close>

lemma map_of_Object_assign: "map_of (Object_assign acc k v) = (map_of acc)(k \<mapsto> v)"
  by (induction acc) auto

lemma childrenObservable_onNext_cell:
  "getChildrenSubject (cells (childrenObservable_onNext a children s) a) = children \<and>
   childrenObservable (cells (childrenObservable_onNext a children s) a) = Some children"
  by (simp add: childrenObservable_onNext_def Let_def publish_cell deliver_def update_cell_def
      split: option.splits)

lemma childrenObservable_onNext_other:
  "a < b \<Longrightarrow> cells (childrenObservable_onNext a children s) b = cells s b"
  by (simp add: childrenObservable_onNext_def Let_def publish_cell deliver_def update_cell_def
      split: option.splits)

lemma addChild_stopped:
  "stopped (cells s a) \<Longrightarrow> addChildrenSubject_onNext a key val prov s = Inr s"
  by (simp add: addChildrenSubject_onNext.simps [of a])

lemma addChild_finalized:
  assumes "\<not> stopped (cells s a)"
    and "map_of (getChildrenSubject (cells s a)) key = Some oldNode" and "\<not> provisional oldNode"
  shows "addChildrenSubject_onNext a key val prov s =
    Inl (FinalizedError key, childrenObservable_onError a s)"
  using assms
  by (simp add: addChildrenSubject_onNext.simps [of a] createChildrenObservable.simps [of a]
      Let_def)

lemma addChild_inherited:
  assumes "\<not> stopped (cells s a)"
    and "map_of (getChildrenSubject (cells s a)) key = None" and "key \<in> set Object_prototype"
  shows "addChildrenSubject_onNext a key val prov s =
    Inl (TypeError, childrenObservable_onError a s)"
  using assms
  by (simp add: addChildrenSubject_onNext.simps [of a] createChildrenObservable.simps [of a]
      Let_def)

lemma addChild_create:
  assumes "\<not> stopped (cells s a)"
    and "map_of (getChildrenSubject (cells s a)) key = None \<and> key \<notin> set Object_prototype \<or>
     (\<exists>oldNode. map_of (getChildrenSubject (cells s a)) key = Some oldNode \<and> provisional oldNode)"
  shows "addChildrenSubject_onNext a key val prov s =
    (case createTree val prov (map_of (getChildrenSubject (cells s a)) key) s of
       Inl (e, s1) \<Rightarrow> Inl (e, childrenObservable_onError a s1)
     | Inr (newNode, s1) \<Rightarrow>
         Inr (childrenObservable_onNext a
           (Object_assign (getChildrenSubject (cells s a)) key newNode) s1))"
  using assms
  by (auto simp add: addChildrenSubject_onNext.simps [of a] createChildrenObservable.simps [of a]
      Let_def split: sum.splits)

lemma subscribe_valueSubject_new:
  assumes "childrenObservable (cells s a) = None"
  shows "subscribe_valueSubject a s =
    (update_cell a (\<lambda>c. c\<lparr>connected := pauser s \<or> connected c\<rparr>) s)\<lparr>pausables := pausables s @ [a]\<rparr>"
  using assms
  by (auto simp: subscribe_valueSubject_def connect_def Let_def update_cell_def
      createTreeObservable_def fun_eq_iff intro!: state.equality cell.equality)

lemma createTree_referenced:
  assumes "val = Undefined \<or> prov"
  shows "createTree val prov provisionalNode s =
    Inr (createNode (fresh s) True,
      takeOver (if val = Undefined then None else provisionalNode) (fresh s)
        (subscribe_valueSubject (fresh s) (snd (alloc blank s))))"
  using assms
  by (auto simp: createTree.simps [of val] createInitialTree.simps alloc_def)

lemma createTree_opaque:
  assumes "val \<noteq> Undefined" and "\<not> isPlainObject val"
  shows "createTree val False provisionalNode s = createLeaf val provisionalNode s"
  using assms by (simp add: createTree.simps [of val])

lemma createTree_from_provisional:
  assumes "createTree (Obj kvs) False (Some provisionalNode) s = Inr (n, s1)"
  shows "updateAddChildrenSubject (Obj kvs) (addr provisionalNode) s = Inr s1 \<and>
    n = createNode (addr provisionalNode) False"
  using assms
  by (auto simp: createTree.simps createFinalTreeFromProvisionalNode.simps split: sum.splits)

lemma createTree_new_branch:
  assumes "createTree (Obj kvs) False None s = Inr (n, s1)"
  shows "n = createNode (fresh s) False"
  using assms
  by (auto simp: createTree.simps createInitialTree.simps alloc_def split: sum.splits)

lemma addChild_recorded:
  assumes "\<not> stopped (cells s a)"
    and "map_of (getChildrenSubject (cells s a)) key = None \<and> key \<notin> set Object_prototype \<or>
     (\<exists>oldNode. map_of (getChildrenSubject (cells s a)) key = Some oldNode \<and> provisional oldNode)"
    and "createTree val prov (map_of (getChildrenSubject (cells s a)) key) s = Inr (newNode, s1)"
  shows "addChildrenSubject_onNext a key val prov s =
      Inr (childrenObservable_onNext a
        (Object_assign (getChildrenSubject (cells s a)) key newNode) s1)"
    and "thrown (addChildrenSubject_onNext a key val prov s) = None"
    and "map_of (getChildrenSubject (cells (state_after (addChildrenSubject_onNext a key val prov s)) a)) =
      (map_of (getChildrenSubject (cells s a)))(key \<mapsto> newNode)"
    and "childrenObservable (cells (state_after (addChildrenSubject_onNext a key val prov s)) a) =
      Some (getChildrenSubject (cells (state_after (addChildrenSubject_onNext a key val prov s)) a))"
proof -
  from addChild_create [OF assms(1,2), of val prov] assms(3)
  show r: "addChildrenSubject_onNext a key val prov s =
      Inr (childrenObservable_onNext a
        (Object_assign (getChildrenSubject (cells s a)) key newNode) s1)"
    by simp
  then show "thrown (addChildrenSubject_onNext a key val prov s) = None"
    by (simp add: thrown_def)
  from r show "map_of (getChildrenSubject (cells (state_after (addChildrenSubject_onNext a key val prov s)) a)) =
      (map_of (getChildrenSubject (cells s a)))(key \<mapsto> newNode)"
    by (simp add: childrenObservable_onNext_cell map_of_Object_assign)
  from r show "childrenObservable (cells (state_after (addChildrenSubject_onNext a key val prov s)) a) =
      Some (getChildrenSubject (cells (state_after (addChildrenSubject_onNext a key val prov s)) a))"
    by (simp add: childrenObservable_onNext_cell)
qed

lemma addChild_failed:
  assumes "\<not> stopped (cells s a)"
    and "map_of (getChildrenSubject (cells s a)) key = None \<and> key \<notin> set Object_prototype \<or>
     (\<exists>oldNode. map_of (getChildrenSubject (cells s a)) key = Some oldNode \<and> provisional oldNode)"
    and "createTree val prov (map_of (getChildrenSubject (cells s a)) key) s = Inl (e, s1)"
  shows "addChildrenSubject_onNext a key val prov s = Inl (e, childrenObservable_onError a s1)"
  using addChild_create [OF assms(1,2), of val prov] assms(3) by simp

lemma new_leaf_cell:
  assumes "b < fresh s" and "\<forall>pn. provisionalNode = Some pn \<longrightarrow> addr pn < fresh s"
  shows "cells (childrenObservable_onNext b children
      (takeOver provisionalNode (fresh s) (snd (alloc (leafCell val) s)))) (fresh s) =
    (leafCell val)\<lparr>observers :=
      (case provisionalNode of
         None \<Rightarrow> []
       | Some pn \<Rightarrow> map (\<lambda>l. l @ [val]) (observers (cells s (addr pn))))\<rparr>"
  using assms
  by (cases provisionalNode)
    (auto simp: childrenObservable_onNext_other takeOver_def alloc_def update_cell_def
      latest_def leafCell_def)




section \<open>Finalizing a provisional branch\<close>

text \<open>
  C3. Finalizing a provisional node as a branch replays the keys of the initial state
  into the provisional node's own \<^verbatim>\<open>addChildrenSubject\<close>, and the node returned wraps the
  subjects of the provisional node and is not provisional. Every subscriber attached to
  the provisional node's stream before is a subscriber of the finalized node's stream
  afterwards: at any later moment it has received, after what it had, exactly the values
  that stream has emitted since, in the order of emission.
\<close>

theorem finalization_in_place:
  assumes "createTree (Obj kvs) False (Some provisionalNode) s = Inr (n, s1)"
    and "addr provisionalNode < fresh s"
    and "steps s1 s2"
    and "i < length (observers (cells s (addr provisionalNode)))"
  shows "updateAddChildrenSubject (Obj kvs) (addr provisionalNode) s = Inr s1 \<and>
    addr n = addr provisionalNode \<and> \<not> provisional n \<and>
    i < length (observers (cells s2 (addr n))) \<and>
    observers (cells s2 (addr n)) ! i =
      observers (cells s (addr provisionalNode)) ! i @
      drop (length (published (cells s (addr provisionalNode)))) (published (cells s2 (addr n)))"
proof -
  from createTree_from_provisional [OF assms(1)]
  have u: "updateAddChildrenSubject (Obj kvs) (addr provisionalNode) s = Inr s1"
    and n: "n = createNode (addr provisionalNode) False" by simp_all
  from follows_create(1) [of s "Obj kvs" False "Some provisionalNode"] assms(1)
  have "follows s s1" by simp
  moreover from assms(3) have "follows s1 s2" by (rule follows_steps)
  ultimately have "follows s s2" by (rule follows_trans)
  from received_since [OF this assms(2,4)] u n show ?thesis
    by (simp add: createNode_def)
qed

theorem finalization_in_place_witness:
  "observers (cells watchedRoot 0) = [[]] \<and>
   finalizedRoot = Inr (createNode 0 False, state_of finalizedRoot) \<and>
   observers (cells finalizedThenAssigned 0) ! 0 =
     [Obj [(''a'', Obj [(''x'', Num 1)])],
      Obj [(''a'', Obj [(''x'', Num 1)]), (''b'', Num 2)],
      Obj [(''a'', Obj [(''x'', Num 7)]), (''b'', Num 2)]]"
proof -
  have o: "observers (cells watchedRoot 0) = [[]]" by code_simp
  have p: "published (cells watchedRoot 0) = []" by code_simp
  have f: "addr (createNode 0 True) < fresh watchedRoot" by code_simp
  have "node_of finalizedRoot = Some (createNode 0 False)" by code_simp
  then have r: "finalizedRoot = Inr (createNode 0 False, state_of finalizedRoot)"
    by (rule node_of_Some)
  then have c: "createTree (Obj [(''a'', Obj [(''x'', Num 1)]), (''b'', Num 2)]) False
       (Some (createNode 0 True)) watchedRoot = Inr (createNode 0 False, state_of finalizedRoot)"
    by (simp only: finalizedRoot_def)
  have "thrown (setNextState 0 (Obj [(''a'', Obj [(''x'', Num 7)]), (''b'', Num 2)])
      (state_of finalizedRoot)) = None"
    by code_simp
  then have "step (state_of finalizedRoot) finalizedThenAssigned"
    unfolding finalizedThenAssigned_def by (rule step.assign [OF returned])
  then have s: "steps (state_of finalizedRoot) finalizedThenAssigned"
    by (rule steps.more [OF steps.none])
  have i: "0 < length (observers (cells watchedRoot (addr (createNode 0 True))))"
    using o by (simp add: createNode_def)
  have p': "published (cells finalizedThenAssigned 0) =
     [Obj [(''a'', Obj [(''x'', Num 1)])],
      Obj [(''a'', Obj [(''x'', Num 1)]), (''b'', Num 2)],
      Obj [(''a'', Obj [(''x'', Num 7)]), (''b'', Num 2)]]" by code_simp
  from finalization_in_place [OF c f s i] o p p' r show ?thesis
    by (simp add: createNode_def)
qed

end
